theory Spec2Isabelle
  imports Complex_Main "HOL-Library.Multiset" "HOL-Library.Product_Lexorder"
begin

section \<open>The contraction-hierarchies engine of \<open>ch_core.cpp\<close>\<close>

text \<open>
  The embedding follows \<open>backend/cpp_native/ch_core.cpp\<close> function by function.

  \<^item> Node indices and ranks are C++ \<open>int\<close>s; they are modelled as \<open>int\<close>. The only
    arithmetic on them is \<open>r++\<close>, \<open>h + 1\<close> and \<open>shortcuts_added++\<close>, which stay far
    from the 32-bit bounds on any input that fits in memory.
  \<^item> Weights are C++ \<open>double\<close>s; they are modelled as (finite) real numbers, so that
    rounding is idealised away. Distances that may be
    \<open>std::numeric_limits<double>::infinity()\<close> have the type \<open>dist\<close>.
  \<^item> \<open>std::vector::operator[]\<close> is unchecked. Every function that reads or writes a
    vector returns an \<open>option\<close>: \<open>None\<close> means that the C++ program has no defined
    result there (an index out of range, or, for the recursive and \<open>while\<close>-loop
    parts that need not terminate, no result at all).
  \<^item> The progress line printed by \<open>build_ch\<close> and the pybind11 wrapping are not modelled.
\<close>

subsection \<open>Vectors with unchecked indexing\<close>

definition in_bounds :: "'a list \<Rightarrow> int \<Rightarrow> bool" where
  "in_bounds xs i \<longleftrightarrow> 0 \<le> i \<and> i < int (length xs)"

definition vec_at :: "'a list \<Rightarrow> int \<Rightarrow> 'a option" where
  "vec_at xs i = (if in_bounds xs i then Some (xs ! nat i) else None)"

definition vec_put :: "'a list \<Rightarrow> int \<Rightarrow> 'a \<Rightarrow> 'a list option" where
  "vec_put xs i x = (if in_bounds xs i then Some (xs[nat i := x]) else None)"

definition push_back_at :: "'a list list \<Rightarrow> int \<Rightarrow> 'a \<Rightarrow> 'a list list option" where
  "push_back_at xss i x =
     (if in_bounds xss i then Some (xss[nat i := xss ! nat i @ [x]]) else None)"

subsection \<open>Data model\<close>

record Edge =
  target :: int
  weight :: real
  is_shortcut :: bool
  via_node :: int

record CHGraph =
  num_nodes :: int
  adj_out :: "Edge list list"
  adj_in :: "Edge list list"
  contracted :: "bool list"
  rank :: "int list"
  node_order :: "int list"

datatype dist = Fin real | Infty

definition mk_edge :: "int \<Rightarrow> real \<Rightarrow> bool \<Rightarrow> int \<Rightarrow> Edge" where
  "mk_edge t w s via = \<lparr>target = t, weight = w, is_shortcut = s, via_node = via\<rparr>"

text \<open>The constructor \<open>CHGraph(int n)\<close>; a negative \<open>n\<close> makes \<open>resize\<close> throw.\<close>

definition CHGraph_init :: "int \<Rightarrow> CHGraph option" where
  "CHGraph_init n =
     (if n < 0 then None
      else Some \<lparr>num_nodes = n,
                 adj_out = replicate (nat n) [],
                 adj_in = replicate (nat n) [],
                 contracted = replicate (nat n) False,
                 rank = replicate (nat n) (- 1),
                 node_order = []\<rparr>)"

subsection \<open>Mutators\<close>

definition add_edge :: "CHGraph \<Rightarrow> int \<Rightarrow> int \<Rightarrow> real \<Rightarrow> CHGraph option" where
  "add_edge g u v w =
     (case push_back_at (adj_out g) u (mk_edge v w False (- 1)) of
        None \<Rightarrow> None
      | Some out' \<Rightarrow>
          (case push_back_at (adj_in g) v (mk_edge u w False (- 1)) of
             None \<Rightarrow> None
           | Some in' \<Rightarrow> Some (g\<lparr>adj_out := out', adj_in := in'\<rparr>)))"

definition add_ch_edge :: "CHGraph \<Rightarrow> int \<Rightarrow> int \<Rightarrow> real \<Rightarrow> bool \<Rightarrow> int \<Rightarrow> CHGraph option" where
  "add_ch_edge g u v w s via =
     (case push_back_at (adj_out g) u (mk_edge v w s via) of
        None \<Rightarrow> None
      | Some out' \<Rightarrow>
          (case push_back_at (adj_in g) v (mk_edge u w s via) of
             None \<Rightarrow> None
           | Some in' \<Rightarrow> Some (g\<lparr>adj_out := out', adj_in := in'\<rparr>)))"

definition set_rank :: "CHGraph \<Rightarrow> int \<Rightarrow> int \<Rightarrow> CHGraph option" where
  "set_rank g u r =
     (if 0 \<le> u \<and> u < num_nodes g
      then (case vec_put (rank g) u r of None \<Rightarrow> None | Some rk \<Rightarrow> Some (g\<lparr>rank := rk\<rparr>))
      else Some g)"

subsection \<open>Witness search\<close>

text \<open>
  \<open>std::priority_queue<..., std::greater<>>\<close> hands out a least element of a total
  order (the lexicographic one on tuples), so a queue is determined by the multiset of
  its elements. It is modelled as the ascending list of its elements: \<open>push\<close> is
  \<open>insort\<close>, \<open>top\<close> is the head and \<open>pop\<close> the tail.
\<close>

type_synonym wqueue = "(real \<times> int \<times> int) list"

text \<open>The inner \<open>for\<close> loop of \<open>witness_search\<close>, over the edges out of \<open>cur\<close>.\<close>

fun witness_relax ::
  "CHGraph \<Rightarrow> int \<Rightarrow> real \<Rightarrow> int \<Rightarrow> real \<Rightarrow> int \<Rightarrow> Edge list \<Rightarrow> wqueue \<Rightarrow> wqueue option" where
  "witness_relax g v max_dist exclude_node d h [] pq = Some pq"
| "witness_relax g v max_dist exclude_node d h (e # es) pq =
     (case vec_at (contracted g) (target e) of
        None \<Rightarrow> None
      | Some c \<Rightarrow>
          if c \<and> target e \<noteq> v then witness_relax g v max_dist exclude_node d h es pq
          else if target e = exclude_node then witness_relax g v max_dist exclude_node d h es pq
          else if d + weight e \<le> max_dist
               then witness_relax g v max_dist exclude_node d h es
                      (insort (d + weight e, target e, h + 1) pq)
               else witness_relax g v max_dist exclude_node d h es pq)"

lemma witness_relax_mset:
  "witness_relax g v L ex d h es pq = Some pq' \<Longrightarrow>
     \<exists>K. mset pq' = mset pq + K \<and> (\<forall>k \<in># K. snd (snd k) = h + 1)"
proof (induction es arbitrary: pq)
  case Nil
  then show ?case by simp
next
  case (Cons e es)
  show ?case
  proof (cases "vec_at (contracted g) (target e)")
    case None
    with Cons.prems show ?thesis by simp
  next
    case (Some c)
    consider (skip) "witness_relax g v L ex d h es pq = Some pq'"
      | (push) "witness_relax g v L ex d h es (insort (d + weight e, target e, h + 1) pq) = Some pq'"
      using Cons.prems Some by (simp split: if_splits)
    then show ?thesis
    proof cases
      case skip
      then show ?thesis by (rule Cons.IH)
    next
      case push
      from Cons.IH[OF push] obtain K where
        K: "mset pq' = mset (insort (d + weight e, target e, h + 1) pq) + K"
           "\<forall>k \<in># K. snd (snd k) = h + 1" by blast
      have "mset pq' = mset pq + add_mset (d + weight e, target e, h + 1) K"
        using K(1) by simp
      moreover have "\<forall>k \<in># add_mset (d + weight e, target e, h + 1) K. snd (snd k) = h + 1"
        using K(2) by simp
      ultimately show ?thesis by blast
    qed
  qed
qed

text \<open>The \<open>while (!pq.empty())\<close> loop of \<open>witness_search\<close>.\<close>

function witness_loop ::
  "CHGraph \<Rightarrow> int \<Rightarrow> real \<Rightarrow> int \<Rightarrow> int \<Rightarrow> wqueue \<Rightarrow> bool option" where
  "witness_loop g v max_dist exclude_node hop_limit [] = Some False"
| "witness_loop g v max_dist exclude_node hop_limit ((d, cur, h) # pq) =
     (if d > max_dist then Some False
      else if cur = v then Some True
      else if h \<ge> hop_limit then witness_loop g v max_dist exclude_node hop_limit pq
      else (case vec_at (adj_out g) cur of
              None \<Rightarrow> None
            | Some es \<Rightarrow>
                (case witness_relax g v max_dist exclude_node d h es pq of
                   None \<Rightarrow> None
                 | Some pq' \<Rightarrow> witness_loop g v max_dist exclude_node hop_limit pq')))"
  by pat_completeness auto

definition hops_left :: "int \<Rightarrow> real \<times> int \<times> int \<Rightarrow> nat" where
  "hops_left hop_limit x = nat (hop_limit - snd (snd x))"

definition wqueue_measure :: "int \<Rightarrow> wqueue \<Rightarrow> nat multiset" where
  "wqueue_measure hop_limit pq = image_mset (hops_left hop_limit) (mset pq)"

lemma mset_less_pop: "M < add_mset (x::nat) M"
  using one_step_implies_multp[of "{#x#}" "{#}" "(<)" M]
  by (simp add: less_multiset_def)

lemma mset_less_replace:
  assumes "\<forall>k \<in># K. k < (x::nat)"
  shows "M + K < add_mset x M"
  using one_step_implies_multp[of "{#x#}" K "(<)" M] assms
  by (simp add: less_multiset_def)

lemma wf_less_nat_multiset: "wf {(M :: nat multiset, N). M < N}"
proof -
  have "wfp ((<) :: nat \<Rightarrow> nat \<Rightarrow> bool)" by (simp add: wfp_def wf_less)
  then have "wfp ((<) :: nat multiset \<Rightarrow> nat multiset \<Rightarrow> bool)" by (rule wfp_less_multiset)
  then show ?thesis by (simp add: wfp_def)
qed

termination witness_loop
proof (relation "inv_image {(M :: nat multiset, N). M < N}
                   (\<lambda>(g, v, L, ex, hop, pq). wqueue_measure hop pq)")
  show "wf (inv_image {(M :: nat multiset, N). M < N}
             (\<lambda>(g, v, L, ex, hop, pq). wqueue_measure hop pq))"
    by (intro wf_inv_image wf_less_nat_multiset)
next
  fix g v L ex hop d cur h and pq :: wqueue
  show "((g, v, L, ex, hop, pq), (g, v, L, ex, hop, (d, cur, h) # pq))
          \<in> inv_image {(M :: nat multiset, N). M < N}
               (\<lambda>(g, v, L, ex, hop, pq). wqueue_measure hop pq)"
    by (simp add: wqueue_measure_def mset_less_pop)
next
  fix g v L ex hop d cur h es and pq pq' :: wqueue
  assume h: "\<not> hop \<le> h"
    and r: "witness_relax g v L ex d h es pq = Some pq'"
  from witness_relax_mset[OF r] obtain K where
    K: "mset pq' = mset pq + K" "\<forall>k \<in># K. snd (snd k) = h + 1" by blast
  have "\<forall>k \<in># image_mset (hops_left hop) K. k < hops_left hop (d, cur, h)"
    using K(2) h by (auto simp: hops_left_def)
  from mset_less_replace[OF this, of "image_mset (hops_left hop) (mset pq)"]
  show "((g, v, L, ex, hop, pq'), (g, v, L, ex, hop, (d, cur, h) # pq))
          \<in> inv_image {(M :: nat multiset, N). M < N}
               (\<lambda>(g, v, L, ex, hop, pq). wqueue_measure hop pq)"
    by (simp add: wqueue_measure_def K(1))
qed

declare witness_loop.simps [simp del]

definition witness_search :: "CHGraph \<Rightarrow> int \<Rightarrow> int \<Rightarrow> real \<Rightarrow> int \<Rightarrow> int \<Rightarrow> bool option" where
  "witness_search g u v max_dist exclude_node hop_limit =
     (case vec_at (adj_out g) u of
        None \<Rightarrow> None
      | Some es \<Rightarrow>
          if list_ex (\<lambda>edge. target edge = v \<and> weight edge \<le> max_dist) es then Some True
          else witness_loop g v max_dist exclude_node hop_limit [(0, u, 0)])"

subsection \<open>Contraction\<close>

text \<open>The two collecting loops of \<open>contract_node\<close>: the edges whose other end is not contracted.\<close>

fun uncontracted_edges :: "bool list \<Rightarrow> Edge list \<Rightarrow> Edge list option" where
  "uncontracted_edges cs [] = Some []"
| "uncontracted_edges cs (e # es) =
     (case vec_at cs (target e) of
        None \<Rightarrow> None
      | Some c \<Rightarrow>
          (case uncontracted_edges cs es of
             None \<Rightarrow> None
           | Some r \<Rightarrow> Some (if c then r else e # r)))"

text \<open>
  The inner loop over \<open>out_neighbors\<close>. The result carries the graph, the counter
  \<open>shortcuts_added\<close>, and whether the function has executed its early \<open>return\<close>.
\<close>

fun contract_inner ::
  "CHGraph \<Rightarrow> int \<Rightarrow> bool \<Rightarrow> int \<Rightarrow> real \<Rightarrow> Edge list \<Rightarrow> int \<Rightarrow> (bool \<times> CHGraph \<times> int) option" where
  "contract_inner g node skip_witness u d_uv [] shortcuts_added = Some (False, g, shortcuts_added)"
| "contract_inner g node skip_witness u d_uv (out_edge # rest) shortcuts_added =
     (if u = target out_edge then contract_inner g node skip_witness u d_uv rest shortcuts_added
      else if shortcuts_added \<ge> 100 then Some (True, g, shortcuts_added)
      else
        (case witness_search g u (target out_edge) (d_uv + weight out_edge) node
                (if \<not> skip_witness then 3 else 1) of
           None \<Rightarrow> None
         | Some found \<Rightarrow>
             if found then contract_inner g node skip_witness u d_uv rest shortcuts_added
             else
               (case add_ch_edge g u (target out_edge) (d_uv + weight out_edge) True node of
                  None \<Rightarrow> None
                | Some g' \<Rightarrow> contract_inner g' node skip_witness u d_uv rest (shortcuts_added + 1))))"

fun contract_outer ::
  "CHGraph \<Rightarrow> int \<Rightarrow> bool \<Rightarrow> Edge list \<Rightarrow> Edge list \<Rightarrow> int \<Rightarrow> (CHGraph \<times> int) option" where
  "contract_outer g node skip_witness [] out_neighbors shortcuts_added = Some (g, shortcuts_added)"
| "contract_outer g node skip_witness (in_edge # rest) out_neighbors shortcuts_added =
     (case contract_inner g node skip_witness (target in_edge) (weight in_edge)
             out_neighbors shortcuts_added of
        None \<Rightarrow> None
      | Some (returned, g', k) \<Rightarrow>
          if returned then Some (g', k)
          else contract_outer g' node skip_witness rest out_neighbors k)"

text \<open>\<open>contract_node\<close> returns the updated graph together with its \<open>int\<close> result.\<close>

definition contract_node :: "CHGraph \<Rightarrow> int \<Rightarrow> (CHGraph \<times> int) option" where
  "contract_node g node =
     (case vec_put (contracted g) node True of
        None \<Rightarrow> None
      | Some cs \<Rightarrow>
          (case vec_at (adj_in g) node of
             None \<Rightarrow> None
           | Some ins \<Rightarrow>
               (case uncontracted_edges cs ins of
                  None \<Rightarrow> None
                | Some in_neighbors \<Rightarrow>
                    (case vec_at (adj_out g) node of
                       None \<Rightarrow> None
                     | Some outs \<Rightarrow>
                         (case uncontracted_edges cs outs of
                            None \<Rightarrow> None
                          | Some out_neighbors \<Rightarrow>
                              contract_outer (g\<lparr>contracted := cs\<rparr>) node
                                (int (length in_neighbors) * int (length out_neighbors) > 500)
                                in_neighbors out_neighbors 0)))))"

subsection \<open>Builder\<close>

fun build_loop :: "CHGraph \<Rightarrow> int list \<Rightarrow> int \<Rightarrow> CHGraph option" where
  "build_loop g [] r = Some g"
| "build_loop g (node # rest) r =
     (case vec_put (rank g) node r of
        None \<Rightarrow> None
      | Some rk \<Rightarrow>
          (case contract_node (g\<lparr>rank := rk\<rparr>) node of
             None \<Rightarrow> None
           | Some (g', k) \<Rightarrow> build_loop g' rest (r + 1)))"

definition build_ch :: "CHGraph \<Rightarrow> int list \<Rightarrow> CHGraph option" where
  "build_ch g order = build_loop (g\<lparr>node_order := order\<rparr>) order 0"

subsection \<open>Unpacking\<close>

text \<open>
  The loop of \<open>unpack\<close> stops at the first edge to \<open>v\<close> that is a shortcut with a via
  node; the recursion need not terminate on an arbitrary graph.
\<close>

definition first_shortcut :: "Edge list \<Rightarrow> int \<Rightarrow> Edge option" where
  "first_shortcut es v =
     List.find (\<lambda>e. target e = v \<and> is_shortcut e \<and> via_node e \<noteq> - 1) es"

partial_function (option) unpack :: "CHGraph \<Rightarrow> int \<Rightarrow> int \<Rightarrow> int list \<Rightarrow> int list option" where
  "unpack g u v path =
     (case vec_at (adj_out g) u of
        None \<Rightarrow> None
      | Some es \<Rightarrow>
          (case first_shortcut es v of
             None \<Rightarrow> Some (path @ [v])
           | Some e \<Rightarrow>
               Option.bind (unpack g u (via_node e) path)
                 (\<lambda>path'. unpack g (via_node e) v path')))"

declare unpack.simps [code]

subsection \<open>Bidirectional query\<close>

text \<open>Comparisons of a finite \<open>double\<close> with one that may be infinite.\<close>

fun le_dist :: "real \<Rightarrow> dist \<Rightarrow> bool" where
  "le_dist x Infty = True"
| "le_dist x (Fin y) = (x \<le> y)"

fun lt_dist :: "real \<Rightarrow> dist \<Rightarrow> bool" where
  "lt_dist x Infty = True"
| "lt_dist x (Fin y) = (x < y)"

fun div_dist :: "dist \<Rightarrow> real \<Rightarrow> dist" where
  "div_dist Infty c = Infty"
| "div_dist (Fin x) c = Fin (x / c)"

text \<open>
  The state of one direction of the search: its queue, its distance array and its
  parent array. The forward and the backward block of the \<open>while\<close> loop of \<open>query\<close>
  are the same text up to exchanging \<open>fwd\<close> with \<open>bwd\<close> and \<open>adj_out\<close> with
  \<open>adj_in\<close>; both are instances of \<open>half_step\<close>.
\<close>

record search =
  pq :: "(real \<times> int) list"
  dst :: "dist list"
  parent :: "int list"

text \<open>
  The body of the \<open>for\<close> loop over the edges of the popped node \<open>u\<close>, popped at
  distance \<open>d\<close>; \<open>other\<close> is the distance array of the opposite direction.
\<close>

definition relax_edge ::
  "int list \<Rightarrow> int \<Rightarrow> real \<Rightarrow> Edge \<Rightarrow> dist list \<Rightarrow> search \<times> dist \<times> int
     \<Rightarrow> (search \<times> dist \<times> int) option" where
  "relax_edge rk u d e other st =
     (case st of (s, mu, meet_node) \<Rightarrow>
     (case vec_at rk (target e) of
        None \<Rightarrow> None
      | Some rt \<Rightarrow>
     (case vec_at rk u of
        None \<Rightarrow> None
      | Some ru \<Rightarrow>
          if rt > ru then
            (case vec_at (dst s) (target e) of
               None \<Rightarrow> None
             | Some old \<Rightarrow>
                 if lt_dist (d + weight e) old then
                   (case vec_put (dst s) (target e) (Fin (d + weight e)) of
                      None \<Rightarrow> None
                    | Some dst' \<Rightarrow>
                   (case vec_put (parent s) (target e) u of
                      None \<Rightarrow> None
                    | Some parent' \<Rightarrow>
                   (case vec_at other (target e) of
                      None \<Rightarrow> None
                    | Some Infty \<Rightarrow>
                        Some (\<lparr>pq = insort (d + weight e, target e) (pq s),
                               dst = dst', parent = parent'\<rparr>, mu, meet_node)
                    | Some (Fin od) \<Rightarrow>
                        if lt_dist (d + weight e + od) mu
                        then Some (\<lparr>pq = insort (d + weight e, target e) (pq s),
                                    dst = dst', parent = parent'\<rparr>,
                                   Fin (d + weight e + od), target e)
                        else Some (\<lparr>pq = insort (d + weight e, target e) (pq s),
                                    dst = dst', parent = parent'\<rparr>, mu, meet_node))))
                 else Some st)
          else Some st)))"

fun relax_edges ::
  "int list \<Rightarrow> int \<Rightarrow> real \<Rightarrow> Edge list \<Rightarrow> dist list \<Rightarrow> search \<times> dist \<times> int
     \<Rightarrow> (search \<times> dist \<times> int) option" where
  "relax_edges rk u d [] other st = Some st"
| "relax_edges rk u d (e # es) other st =
     (case relax_edge rk u d e other st of
        None \<Rightarrow> None
      | Some st' \<Rightarrow> relax_edges rk u d es other st')"

text \<open>One \<open>if (!pq.empty()) { ... }\<close> block of the loop body.\<close>

definition half_step ::
  "int list \<Rightarrow> Edge list list \<Rightarrow> dist list \<Rightarrow> search \<times> dist \<times> int
     \<Rightarrow> (search \<times> dist \<times> int) option" where
  "half_step rk adj other st =
     (case st of (s, mu, meet_node) \<Rightarrow>
        (case pq s of
           [] \<Rightarrow> Some st
         | (d, u) # rest \<Rightarrow>
             if le_dist d mu then
               (case vec_at adj u of
                  None \<Rightarrow> None
                | Some es \<Rightarrow> relax_edges rk u d es other (s\<lparr>pq := rest\<rparr>, mu, meet_node))
             else Some (s\<lparr>pq := rest\<rparr>, mu, meet_node)))"

definition rank_deficit :: "int list \<Rightarrow> real \<times> int \<Rightarrow> nat" where
  "rank_deficit rk x =
     (if in_bounds rk (snd x) then nat (Max (set rk) - rk ! nat (snd x)) else 0)"

lemma relax_edge_cases:
  assumes "relax_edge rk u d e other (s, mu, m) = Some (s', mu', m')"
  shows "pq s' = pq s \<or>
         (pq s' = insort (d + weight e, target e) (pq s) \<and> in_bounds rk (target e) \<and> in_bounds rk u
           \<and> rk ! nat u < rk ! nat (target e))"
  using assms unfolding relax_edge_def vec_at_def vec_put_def
  by (simp split: option.splits if_splits dist.splits) auto

lemma rank_deficit_less:
  assumes bt: "in_bounds rk t" and bu: "in_bounds rk u" and lt: "rk ! nat u < rk ! nat t"
  shows "rank_deficit rk (d1, t) < rank_deficit rk (d0, u)"
proof -
  have "rk ! nat t \<in> set rk"
    using bt by (intro nth_mem) (simp add: in_bounds_def nat_less_iff)
  then have "rk ! nat t \<le> Max (set rk)" by simp
  with lt bt bu show ?thesis by (simp add: rank_deficit_def)
qed

lemma relax_edge_pq:
  assumes "relax_edge rk u d e other (s, mu, m) = Some (s', mu', m')"
  shows "\<exists>K. mset (pq s') = mset (pq s) + K
           \<and> (\<forall>k \<in># K. rank_deficit rk k < rank_deficit rk (d0, u))"
proof -
  from relax_edge_cases[OF assms] consider (same) "pq s' = pq s"
    | (push) "pq s' = insort (d + weight e, target e) (pq s)" "in_bounds rk (target e)"
        "in_bounds rk u" "rk ! nat u < rk ! nat (target e)" by blast
  then show ?thesis
  proof cases
    case same
    then show ?thesis by (intro exI[of _ "{#}"]) simp
  next
    case push
    from rank_deficit_less[OF push(2,3,4)] push(1) show ?thesis
      by (intro exI[of _ "{#(d + weight e, target e)#}"]) simp
  qed
qed

lemma relax_edges_pq:
  "relax_edges rk u d es other (s, mu, m) = Some (s', mu', m') \<Longrightarrow>
     \<exists>K. mset (pq s') = mset (pq s) + K
        \<and> (\<forall>k \<in># K. rank_deficit rk k < rank_deficit rk (d0, u))"
proof (induction es arbitrary: s mu m)
  case Nil
  then show ?case by (intro exI[of _ "{#}"]) simp
next
  case (Cons e es)
  from Cons.prems obtain s1 mu1 m1 where
    step: "relax_edge rk u d e other (s, mu, m) = Some (s1, mu1, m1)"
    and rest: "relax_edges rk u d es other (s1, mu1, m1) = Some (s', mu', m')"
    by (auto split: option.splits)
  from relax_edge_pq[OF step, of d0] obtain K1 where
    K1: "mset (pq s1) = mset (pq s) + K1"
        "\<forall>k \<in># K1. rank_deficit rk k < rank_deficit rk (d0, u)" by blast
  from Cons.IH[OF rest] obtain K2 where
    K2: "mset (pq s') = mset (pq s1) + K2"
        "\<forall>k \<in># K2. rank_deficit rk k < rank_deficit rk (d0, u)" by blast
  have "mset (pq s') = mset (pq s) + (K1 + K2)" using K1(1) K2(1) by simp
  moreover have "\<forall>k \<in># K1 + K2. rank_deficit rk k < rank_deficit rk (d0, u)"
    using K1(2) K2(2) by auto
  ultimately show ?case by blast
qed

definition queue_measure :: "int list \<Rightarrow> (real \<times> int) list \<Rightarrow> nat multiset" where
  "queue_measure rk q = image_mset (rank_deficit rk) (mset q)"

lemma half_step_measure:
  assumes "half_step rk adj other (s, mu, m) = Some (s', mu', m')"
  shows "(pq s = [] \<and> pq s' = []) \<or>
         (pq s \<noteq> [] \<and> queue_measure rk (pq s') < queue_measure rk (pq s))"
proof (cases "pq s")
  case Nil
  with assms show ?thesis by (simp add: half_step_def)
next
  case (Cons top rest)
  obtain d u where top: "top = (d, u)" by (cases top)
  have "\<exists>K. mset (pq s') = mset rest + K \<and> (\<forall>k \<in># K. rank_deficit rk k < rank_deficit rk (d, u))"
  proof (cases "le_dist d mu")
    case True
    with assms Cons top obtain es where
      "relax_edges rk u d es other (s\<lparr>pq := rest\<rparr>, mu, m) = Some (s', mu', m')"
      by (auto simp: half_step_def split: option.splits)
    from relax_edges_pq[OF this, of d] show ?thesis by simp
  next
    case False
    with assms Cons top have "pq s' = rest" by (auto simp: half_step_def)
    then show ?thesis by (intro exI[of _ "{#}"]) simp
  qed
  then obtain K where K: "mset (pq s') = mset rest + K"
    "\<forall>k \<in># K. rank_deficit rk k < rank_deficit rk (d, u)" by blast
  have "\<forall>k \<in># image_mset (rank_deficit rk) K. k < rank_deficit rk (d, u)"
    using K(2) by auto
  from mset_less_replace[OF this, of "image_mset (rank_deficit rk) (mset rest)"]
  show ?thesis by (simp add: queue_measure_def K(1) Cons top)
qed

text \<open>The \<open>while (!fwd_pq.empty() || !bwd_pq.empty())\<close> loop of \<open>query\<close>.\<close>

function query_loop ::
  "CHGraph \<Rightarrow> search \<Rightarrow> search \<Rightarrow> dist \<Rightarrow> int \<Rightarrow> (search \<times> search \<times> dist \<times> int) option" where
  "query_loop g f b mu meet_node =
     (if pq f = [] \<and> pq b = [] then Some (f, b, mu, meet_node)
      else
        (case half_step (rank g) (adj_out g) (dst b) (f, mu, meet_node) of
           None \<Rightarrow> None
         | Some (f', mu', meet') \<Rightarrow>
             (case half_step (rank g) (adj_in g) (dst f') (b, mu', meet') of
                None \<Rightarrow> None
              | Some (b', mu'', meet'') \<Rightarrow> query_loop g f' b' mu'' meet'')))"
  by pat_completeness auto

termination query_loop
proof (relation "inv_image {(M :: nat multiset, N). M < N}
                   (\<lambda>(g, f, b, mu, m). queue_measure (rank g) (pq f) + queue_measure (rank g) (pq b))")
  show "wf (inv_image {(M :: nat multiset, N). M < N}
             (\<lambda>(g, f, b, mu, m). queue_measure (rank g) (pq f) + queue_measure (rank g) (pq b)))"
    by (intro wf_inv_image wf_less_nat_multiset)
next
  fix g :: CHGraph and f b mu m x2 f' y mu' m' x2a b' ya mu'' m''
  assume ne: "\<not> (pq f = [] \<and> pq b = [])"
    and h1: "half_step (rank g) (adj_out g) (dst b) (f, mu, m) = Some x2"
    and x2: "(f', y) = x2" "(mu', m') = y"
    and h2: "half_step (rank g) (adj_in g) (dst f') (b, mu', m') = Some x2a"
    and x2a: "(b', ya) = x2a" "(mu'', m'') = ya"
  let ?q = "queue_measure (rank g)"
  from h1 x2 have h1': "half_step (rank g) (adj_out g) (dst b) (f, mu, m) = Some (f', mu', m')"
    by simp
  from h2 x2a have h2': "half_step (rank g) (adj_in g) (dst f') (b, mu', m') = Some (b', mu'', m'')"
    by simp
  have F: "(pq f = [] \<and> pq f' = []) \<or> (pq f \<noteq> [] \<and> ?q (pq f') < ?q (pq f))"
    by (rule half_step_measure[OF h1'])
  have B: "(pq b = [] \<and> pq b' = []) \<or> (pq b \<noteq> [] \<and> ?q (pq b') < ?q (pq b))"
    by (rule half_step_measure[OF h2'])
  have "?q (pq f') + ?q (pq b') < ?q (pq f) + ?q (pq b)"
  proof (cases "pq f = []")
    case True
    with F ne B have "pq f' = []" "?q (pq b') < ?q (pq b)" by auto
    with True show ?thesis by (simp add: queue_measure_def)
  next
    case False
    with F have Ff: "?q (pq f') < ?q (pq f)" by simp
    show ?thesis
    proof (cases "pq b = []")
      case True
      with B have "pq b' = []" by simp
      with True Ff show ?thesis by (simp add: queue_measure_def)
    next
      case False
      with B have Bb: "?q (pq b') < ?q (pq b)" by simp
      from Ff Bb show ?thesis by (rule union_less_mono)
    qed
  qed
  then show "((g, f', b', mu'', m''), (g, f, b, mu, m)) \<in>
          inv_image {(M :: nat multiset, N). M < N}
            (\<lambda>(g, f, b, mu, m). queue_measure (rank g) (pq f) + queue_measure (rank g) (pq b))"
    by simp
qed

declare query_loop.simps [simp del]

text \<open>\<open>while (curr != origin) { p = fwd_parent[curr]; up_path.push_back(curr); curr = p; }\<close>\<close>

partial_function (option) trace_up :: "int list \<Rightarrow> int \<Rightarrow> int \<Rightarrow> int list \<Rightarrow> int list option" where
  "trace_up fwd_parent origin cur up_path =
     (if cur = origin then Some up_path
      else
        (case vec_at fwd_parent cur of
           None \<Rightarrow> None
         | Some p \<Rightarrow> trace_up fwd_parent origin p (up_path @ [cur])))"

declare trace_up.simps [code]

text \<open>
  The loop \<open>for (int i = up_path.size() - 1; i >= 0; --i)\<close>; it is run on the
  reversed \<open>up_path\<close>.
\<close>

fun unpack_upward :: "CHGraph \<Rightarrow> int \<Rightarrow> int list \<Rightarrow> int list \<Rightarrow> int list option" where
  "unpack_upward g cur [] path = Some path"
| "unpack_upward g cur (next_node # rest) path =
     (case unpack g cur next_node path of
        None \<Rightarrow> None
      | Some path' \<Rightarrow> unpack_upward g next_node rest path')"

text \<open>\<open>while (curr != dest) { next_node = bwd_parent[curr]; unpack(curr, next_node, path); curr = next_node; }\<close>\<close>

partial_function (option) trace_down ::
  "CHGraph \<Rightarrow> int list \<Rightarrow> int \<Rightarrow> int \<Rightarrow> int list \<Rightarrow> int list option" where
  "trace_down g bwd_parent dest cur path =
     (if cur = dest then Some path
      else
        (case vec_at bwd_parent cur of
           None \<Rightarrow> None
         | Some next_node \<Rightarrow>
             Option.bind (unpack g cur next_node path)
               (\<lambda>path'. trace_down g bwd_parent dest next_node path')))"

declare trace_down.simps [code]

text \<open>The state in which \<open>query\<close> enters its \<open>while\<close> loop, and the loop run from it.\<close>

definition init_search :: "CHGraph \<Rightarrow> int \<Rightarrow> search option" where
  "init_search g start =
     (case vec_put (replicate (nat (num_nodes g)) Infty) start (Fin 0) of
        None \<Rightarrow> None
      | Some d \<Rightarrow> Some \<lparr>pq = [(0, start)], dst = d,
                         parent = replicate (nat (num_nodes g)) (- 1)\<rparr>)"

definition query_search :: "CHGraph \<Rightarrow> int \<Rightarrow> int \<Rightarrow> (search \<times> search \<times> dist \<times> int) option" where
  "query_search g origin dest =
     (case init_search g origin of
        None \<Rightarrow> None
      | Some f \<Rightarrow>
          (case init_search g dest of
             None \<Rightarrow> None
           | Some b \<Rightarrow> query_loop g f b Infty (- 1)))"

definition query :: "CHGraph \<Rightarrow> int \<Rightarrow> int \<Rightarrow> (int list \<times> dist) option" where
  "query g origin dest =
     (if origin < 0 \<or> origin \<ge> num_nodes g \<or> dest < 0 \<or> dest \<ge> num_nodes g
      then Some ([], Fin 0)
      else
        (case query_search g origin dest of
           None \<Rightarrow> None
         | Some (f, b, mu, meet_node) \<Rightarrow>
             if meet_node = - 1 then Some ([], Fin 0)
             else
               (case trace_up (parent f) origin meet_node [] of
                  None \<Rightarrow> None
                | Some up_path \<Rightarrow>
                    (case unpack_upward g origin (rev up_path) [origin] of
                       None \<Rightarrow> None
                     | Some path \<Rightarrow>
                         (case trace_down g (parent b) dest meet_node path of
                            None \<Rightarrow> None
                          | Some path' \<Rightarrow> Some (path', div_dist mu 1000))))))"

section \<open>Well-formed graphs\<close>

text \<open>
  The vectors of a graph made by the constructor all have \<open>num_nodes\<close> entries, and
  every stored edge end is a node. On such graphs no access leaves its vector.
\<close>

definition edges_in_range :: "int \<Rightarrow> Edge list list \<Rightarrow> bool" where
  "edges_in_range n adj \<longleftrightarrow> (\<forall>es \<in> set adj. \<forall>e \<in> set es. 0 \<le> target e \<and> target e < n)"

definition wf_graph :: "CHGraph \<Rightarrow> bool" where
  "wf_graph g \<longleftrightarrow>
     0 \<le> num_nodes g
     \<and> length (adj_out g) = nat (num_nodes g)
     \<and> length (adj_in g) = nat (num_nodes g)
     \<and> length (contracted g) = nat (num_nodes g)
     \<and> length (rank g) = nat (num_nodes g)
     \<and> edges_in_range (num_nodes g) (adj_out g)
     \<and> edges_in_range (num_nodes g) (adj_in g)"

definition node_of :: "CHGraph \<Rightarrow> int \<Rightarrow> bool" where
  "node_of g u \<longleftrightarrow> 0 \<le> u \<and> u < num_nodes g"

lemma vec_at_Some: "in_bounds xs i \<Longrightarrow> vec_at xs i = Some (xs ! nat i)"
  by (simp add: vec_at_def)

lemma vec_at_mem: "vec_at xs i = Some x \<Longrightarrow> x \<in> set xs"
  by (auto simp: vec_at_def in_bounds_def nat_less_iff split: if_splits)

lemma wf_graph_bounds:
  assumes "wf_graph g" "node_of g u"
  shows "in_bounds (adj_out g) u" "in_bounds (adj_in g) u" "in_bounds (contracted g) u"
    "in_bounds (rank g) u"
  using assms by (auto simp: wf_graph_def node_of_def in_bounds_def)

lemma wf_graph_out_target:
  assumes "wf_graph g" "vec_at (adj_out g) u = Some es" "e \<in> set es"
  shows "node_of g (target e)"
  using assms vec_at_mem[of "adj_out g" u es]
  by (auto simp: wf_graph_def edges_in_range_def node_of_def)

lemma wf_graph_in_target:
  assumes "wf_graph g" "vec_at (adj_in g) u = Some es" "e \<in> set es"
  shows "node_of g (target e)"
  using assms vec_at_mem[of "adj_in g" u es]
  by (auto simp: wf_graph_def edges_in_range_def node_of_def)

lemma witness_relax_total:
  assumes "\<forall>e \<in> set es. in_bounds (contracted g) (target e)"
  shows "\<exists>q'. witness_relax g v L ex d h es q = Some q'
           \<and> (\<forall>x \<in> set q'. x \<in> set q \<or> (\<exists>e \<in> set es. fst (snd x) = target e))"
  using assms
proof (induction es arbitrary: q)
  case Nil
  then show ?case by simp
next
  case (Cons e es)
  then have b: "vec_at (contracted g) (target e) = Some (contracted g ! nat (target e))"
    by (simp add: vec_at_Some)
  from Cons have IH: "\<And>q. \<exists>q'. witness_relax g v L ex d h es q = Some q'
           \<and> (\<forall>x \<in> set q'. x \<in> set q \<or> (\<exists>e \<in> set es. fst (snd x) = target e))"
    by simp
  show ?case
  proof (cases "(contracted g ! nat (target e) \<and> target e \<noteq> v) \<or> target e = ex \<or> \<not> d + weight e \<le> L")
    case True
    then have "witness_relax g v L ex d h (e # es) q = witness_relax g v L ex d h es q"
      using b by auto
    with IH[of q] show ?thesis by auto
  next
    case False
    then have "witness_relax g v L ex d h (e # es) q
      = witness_relax g v L ex d h es (insort (d + weight e, target e, h + 1) q)"
      using b by auto
    moreover from IH[of "insort (d + weight e, target e, h + 1) q"] obtain q' where
      q': "witness_relax g v L ex d h es (insort (d + weight e, target e, h + 1) q) = Some q'"
      "\<forall>x \<in> set q'. x \<in> set (insort (d + weight e, target e, h + 1) q)
          \<or> (\<exists>e \<in> set es. fst (snd x) = target e)" by blast
    moreover have "\<forall>x \<in> set q'. x \<in> set q \<or> (\<exists>e' \<in> set (e # es). fst (snd x) = target e')"
    proof
      fix x assume "x \<in> set q'"
      with q'(2) consider "x = (d + weight e, target e, h + 1)" | "x \<in> set q"
        | "\<exists>e \<in> set es. fst (snd x) = target e" by (auto simp: set_insort_key)
      then show "x \<in> set q \<or> (\<exists>e' \<in> set (e # es). fst (snd x) = target e')"
        by cases auto
    qed
    ultimately show ?thesis by simp
  qed
qed

lemma witness_loop_total:
  "wf_graph g \<Longrightarrow> (\<forall>x \<in> set q. node_of g (fst (snd x))) \<Longrightarrow>
     witness_loop g v L ex hop q \<noteq> None"
proof (induction g v L ex hop q rule: witness_loop.induct)
  case (1 g v L ex hop)
  then show ?case by (simp add: witness_loop.simps)
next
  case (2 g v L ex hop d cur h q)
  note wf = "2.prems"(1)
  have nodes: "node_of g cur" "\<forall>x \<in> set q. node_of g (fst (snd x))"
    using "2.prems"(2) by auto
  show ?case
  proof (cases "d > L \<or> cur = v")
    case True
    then show ?thesis by (auto simp: witness_loop.simps)
  next
    case False
    note nf = this
    show ?thesis
    proof (cases "h \<ge> hop")
      case True
      with nf "2.IH"(1) wf nodes show ?thesis by (simp add: witness_loop.simps)
    next
      case False
      have "in_bounds (adj_out g) cur" by (rule wf_graph_bounds(1)[OF wf nodes(1)])
      then obtain es where es: "vec_at (adj_out g) cur = Some es" by (simp add: vec_at_Some)
      have "\<forall>e \<in> set es. in_bounds (contracted g) (target e)"
        using wf_graph_out_target[OF wf es] wf_graph_bounds(3)[OF wf] by blast
      from witness_relax_total[OF this, of v L ex d h q] obtain q' where
        q': "witness_relax g v L ex d h es q = Some q'"
        "\<forall>x \<in> set q'. x \<in> set q \<or> (\<exists>e \<in> set es. fst (snd x) = target e)" by blast
      have "\<forall>x \<in> set q'. node_of g (fst (snd x))"
        using q'(2) nodes(2) wf_graph_out_target[OF wf es] by metis
      with "2.IH"(2)[OF _ _ _ es q'(1)] nf False wf have "witness_loop g v L ex hop q' \<noteq> None"
        by simp
      with nf False es q'(1) show ?thesis by (simp add: witness_loop.simps)
    qed
  qed
qed

lemma witness_search_total:
  assumes "wf_graph g" "node_of g u"
  shows "witness_search g u v L ex hop \<noteq> None"
proof -
  have "in_bounds (adj_out g) u" by (rule wf_graph_bounds(1)[OF assms])
  then obtain es where es: "vec_at (adj_out g) u = Some es" by (simp add: vec_at_Some)
  have "witness_loop g v L ex hop [(0, u, 0)] \<noteq> None"
    by (rule witness_loop_total[OF assms(1)]) (simp add: assms(2))
  with es show ?thesis by (auto simp: witness_search_def)
qed


lemma add_ch_edge_Some:
  assumes "wf_graph g" "node_of g u" "node_of g v"
  shows "\<exists>g'. add_ch_edge g u v w s via = Some g'"
  using wf_graph_bounds(1)[OF assms(1,2)] wf_graph_bounds(2)[OF assms(1,3)]
  by (simp add: add_ch_edge_def push_back_at_def)

lemma edges_in_range_push:
  assumes "edges_in_range n adj" "0 \<le> target e" "target e < n"
  shows "edges_in_range n (adj[i := adj ! i @ [e]])"
proof (cases "i < length adj")
  case False
  then have "adj[i := adj ! i @ [e]] = adj" by (simp add: list_update_beyond)
  with assms(1) show ?thesis by simp
next
  case True
  then have mem: "adj ! i \<in> set adj" by simp
  have "\<forall>x \<in> set es. 0 \<le> target x \<and> target x < n"
    if "es \<in> set (adj[i := adj ! i @ [e]])" for es
  proof -
    from that set_update_subset_insert[of adj i "adj ! i @ [e]"]
    consider "es = adj ! i @ [e]" | "es \<in> set adj" by auto
    then show ?thesis using assms mem by cases (auto simp: edges_in_range_def)
  qed
  then show ?thesis by (simp add: edges_in_range_def)
qed

lemma add_ch_edge_fields:
  assumes "add_ch_edge g u v w s via = Some g'"
  shows "num_nodes g' = num_nodes g" "contracted g' = contracted g" "rank g' = rank g"
    "node_order g' = node_order g"
    "adj_out g' = (adj_out g)[nat u := adj_out g ! nat u @ [mk_edge v w s via]]"
    "adj_in g' = (adj_in g)[nat v := adj_in g ! nat v @ [mk_edge u w s via]]"
    "in_bounds (adj_out g) u" "in_bounds (adj_in g) v"
  using assms by (auto simp: add_ch_edge_def push_back_at_def split: if_splits)

lemma add_ch_edge_wf:
  assumes "wf_graph g" "node_of g u" "node_of g v" "add_ch_edge g u v w s via = Some g'"
  shows "wf_graph g'"
proof -
  note f = add_ch_edge_fields[OF assms(4)]
  have "edges_in_range (num_nodes g) (adj_out g')"
    unfolding f(5) using assms(1,3)
    by (intro edges_in_range_push) (simp_all add: wf_graph_def node_of_def mk_edge_def)
  moreover have "edges_in_range (num_nodes g) (adj_in g')"
    unfolding f(6) using assms(1,2)
    by (intro edges_in_range_push) (simp_all add: wf_graph_def node_of_def mk_edge_def)
  ultimately show ?thesis using assms(1) f(1-4) by (simp add: wf_graph_def f(5,6))
qed

lemma add_edge_eq_add_ch_edge: "add_edge g u v w = add_ch_edge g u v w False (- 1)"
  by (simp add: add_edge_def add_ch_edge_def)

text \<open>A loop rule for the inner loop of \<open>contract_node\<close>: an invariant of the insertions.\<close>

lemma contract_inner_rule:
  assumes "contract_inner g node sw u d outs k = Some (r, g', k')"
    and "Q g k"
    and "\<And>g0 k0 oe g1. Q g0 k0 \<Longrightarrow> oe \<in> set outs \<Longrightarrow> u \<noteq> target oe \<Longrightarrow> k0 < 100 \<Longrightarrow>
           add_ch_edge g0 u (target oe) (d + weight oe) True node = Some g1 \<Longrightarrow> Q g1 (k0 + 1)"
  shows "Q g' k'"
  using assms
proof (induction outs arbitrary: g k)
  case Nil
  then show ?case by simp
next
  case (Cons oe outs)
  have step: "Q g1 (k0 + 1)"
    if "Q g0 k0" "oe' \<in> set outs" "u \<noteq> target oe'" "k0 < 100"
      "add_ch_edge g0 u (target oe') (d + weight oe') True node = Some g1" for g0 k0 oe' g1
    using Cons.prems(3)[OF that(1) _ that(3,4,5)] that(2) by simp
  show ?case
  proof (cases "u = target oe")
    case True
    with Cons.prems(1) have "contract_inner g node sw u d outs k = Some (r, g', k')" by simp
    from Cons.IH[OF this Cons.prems(2) step] show ?thesis .
  next
    case False
    note ne = this
    show ?thesis
    proof (cases "k \<ge> 100")
      case True
      with ne Cons.prems(1,2) show ?thesis by simp
    next
      case False
      with ne Cons.prems(1) obtain found where
        found: "witness_search g u (target oe) (d + weight oe) node (if \<not> sw then 3 else 1) = Some found"
        by (auto split: option.splits)
      show ?thesis
      proof (cases found)
        case True
        with ne False found Cons.prems(1)
        have "contract_inner g node sw u d outs k = Some (r, g', k')" by simp
        from Cons.IH[OF this Cons.prems(2) step] show ?thesis .
      next
        case nf: False
        with ne False found Cons.prems(1) obtain g1 where
          g1: "add_ch_edge g u (target oe) (d + weight oe) True node = Some g1"
          and rest: "contract_inner g1 node sw u d outs (k + 1) = Some (r, g', k')"
          by (auto split: option.splits)
        have "Q g1 (k + 1)"
          using Cons.prems(3)[OF Cons.prems(2) _ ne _ g1] False by simp
        from Cons.IH[OF rest this step] show ?thesis .
      qed
    qed
  qed
qed

lemma contract_outer_rule:
  assumes "contract_outer g node sw ins outs k = Some (g', k')"
    and "Q g k"
    and "\<And>g0 k0 ie oe g1. Q g0 k0 \<Longrightarrow> ie \<in> set ins \<Longrightarrow> oe \<in> set outs \<Longrightarrow>
           target ie \<noteq> target oe \<Longrightarrow> k0 < 100 \<Longrightarrow>
           add_ch_edge g0 (target ie) (target oe) (weight ie + weight oe) True node = Some g1 \<Longrightarrow>
           Q g1 (k0 + 1)"
  shows "Q g' k'"
  using assms
proof (induction ins arbitrary: g k)
  case Nil
  then show ?case by simp
next
  case (Cons ie ins)
  from Cons.prems(1) obtain r g1 k1 where
    inner: "contract_inner g node sw (target ie) (weight ie) outs k = Some (r, g1, k1)"
    by (auto split: option.splits)
  have Q1: "Q g1 k1"
    by (rule contract_inner_rule[where Q = Q, OF inner Cons.prems(2)])
       (rule Cons.prems(3), auto)
  show ?case
  proof (cases r)
    case True
    with inner Cons.prems(1) Q1 show ?thesis by simp
  next
    case False
    with inner Cons.prems(1) have "contract_outer g1 node sw ins outs k1 = Some (g', k')" by simp
    show ?thesis
      by (rule Cons.IH[OF \<open>contract_outer g1 node sw ins outs k1 = Some (g', k')\<close> Q1])
         (rule Cons.prems(3), auto)
  qed
qed

lemma contract_inner_total:
  assumes "wf_graph g" "node_of g u" "\<forall>e \<in> set outs. node_of g (target e)"
  shows "\<exists>r g' k'. contract_inner g node sw u d outs k = Some (r, g', k')"
  using assms
proof (induction outs arbitrary: g k)
  case Nil
  then show ?case by auto
next
  case (Cons oe outs)
  have tl: "\<forall>e \<in> set outs. node_of g (target e)" and hd: "node_of g (target oe)"
    using Cons.prems(3) by simp_all
  show ?case
  proof (cases "u = target oe \<or> k \<ge> 100")
    case True
    with Cons.IH[OF Cons.prems(1,2) tl, of k] show ?thesis by auto
  next
    case False
    obtain found where
      found: "witness_search g u (target oe) (d + weight oe) node (if \<not> sw then 3 else 1) = Some found"
      using witness_search_total[OF Cons.prems(1,2)] by blast
    show ?thesis
    proof (cases found)
      case True
      with False found Cons.IH[OF Cons.prems(1,2) tl, of k] show ?thesis by auto
    next
      case nf: False
      from add_ch_edge_Some[OF Cons.prems(1,2) hd] obtain g1 where
        g1: "add_ch_edge g u (target oe) (d + weight oe) True node = Some g1" by blast
      have wf1: "wf_graph g1" by (rule add_ch_edge_wf[OF Cons.prems(1,2) hd g1])
      have n1: "num_nodes g1 = num_nodes g" by (rule add_ch_edge_fields(1)[OF g1])
      have "\<exists>r g' k'. contract_inner g1 node sw u d outs (k + 1) = Some (r, g', k')"
        by (rule Cons.IH[OF wf1]) (use Cons.prems(2) tl n1 in \<open>simp_all add: node_of_def\<close>)
      with False found nf g1 show ?thesis by auto
    qed
  qed
qed

text \<open>What the loops of \<open>contract_node\<close> leave alone.\<close>

definition same_frame :: "CHGraph \<Rightarrow> CHGraph \<Rightarrow> bool" where
  "same_frame g g' \<longleftrightarrow>
     num_nodes g' = num_nodes g \<and> contracted g' = contracted g \<and> rank g' = rank g
     \<and> node_order g' = node_order g"

lemma contract_inner_wf:
  assumes run: "contract_inner g node sw u d outs k = Some (r, g', k')"
    and wf: "wf_graph g" and u: "node_of g u" and outs: "\<forall>e \<in> set outs. node_of g (target e)"
  shows "wf_graph g' \<and> same_frame g g'"
proof (rule contract_inner_rule[where Q = "\<lambda>x k. wf_graph x \<and> same_frame g x", OF run])
  show "wf_graph g \<and> same_frame g g" using wf by (simp add: same_frame_def)
next
  fix g0 k0 oe g1
  assume Q: "wf_graph g0 \<and> same_frame g g0" and oe: "oe \<in> set outs"
    and add: "add_ch_edge g0 u (target oe) (d + weight oe) True node = Some g1"
  have n: "num_nodes g0 = num_nodes g" using Q by (simp add: same_frame_def)
  have "wf_graph g1"
    by (rule add_ch_edge_wf[OF _ _ _ add]) (use Q u outs oe n in \<open>auto simp: node_of_def\<close>)
  moreover have "same_frame g g1"
    using Q add_ch_edge_fields(1-4)[OF add] by (simp add: same_frame_def)
  ultimately show "wf_graph g1 \<and> same_frame g g1" ..
qed

lemma contract_outer_total:
  assumes "wf_graph g" "\<forall>e \<in> set ins. node_of g (target e)" "\<forall>e \<in> set outs. node_of g (target e)"
  shows "\<exists>g' k'. contract_outer g node sw ins outs k = Some (g', k')"
  using assms
proof (induction ins arbitrary: g k)
  case Nil
  then show ?case by simp
next
  case (Cons ie ins)
  have u: "node_of g (target ie)" using Cons.prems(2) by simp
  from contract_inner_total[OF Cons.prems(1) u Cons.prems(3)] obtain r g1 k1 where
    inner: "contract_inner g node sw (target ie) (weight ie) outs k = Some (r, g1, k1)" by blast
  from contract_inner_wf[OF inner Cons.prems(1) u Cons.prems(3)]
  have wf1: "wf_graph g1" and n1: "num_nodes g1 = num_nodes g" by (simp_all add: same_frame_def)
  have "\<exists>g' k'. contract_outer g1 node sw ins outs k1 = Some (g', k')"
    by (rule Cons.IH[OF wf1]) (use Cons.prems(2,3) n1 in \<open>simp_all add: node_of_def\<close>)
  with inner show ?case by auto
qed

lemma contract_outer_wf:
  assumes run: "contract_outer g node sw ins outs k = Some (g', k')"
    and wf: "wf_graph g" and ins: "\<forall>e \<in> set ins. node_of g (target e)"
    and outs: "\<forall>e \<in> set outs. node_of g (target e)"
  shows "wf_graph g' \<and> same_frame g g'"
proof (rule contract_outer_rule[where Q = "\<lambda>x k. wf_graph x \<and> same_frame g x", OF run])
  show "wf_graph g \<and> same_frame g g" using wf by (simp add: same_frame_def)
next
  fix g0 k0 ie oe g1
  assume Q: "wf_graph g0 \<and> same_frame g g0" and ie: "ie \<in> set ins" and oe: "oe \<in> set outs"
    and add: "add_ch_edge g0 (target ie) (target oe) (weight ie + weight oe) True node = Some g1"
  have n: "num_nodes g0 = num_nodes g" using Q by (simp add: same_frame_def)
  have "wf_graph g1"
    by (rule add_ch_edge_wf[OF _ _ _ add]) (use Q ins outs ie oe n in \<open>auto simp: node_of_def\<close>)
  moreover have "same_frame g g1"
    using Q add_ch_edge_fields(1-4)[OF add] by (simp add: same_frame_def)
  ultimately show "wf_graph g1 \<and> same_frame g g1" ..
qed

lemma uncontracted_edges_filter:
  assumes "\<forall>e \<in> set es. in_bounds cs (target e)"
  shows "uncontracted_edges cs es = Some (filter (\<lambda>e. \<not> cs ! nat (target e)) es)"
  using assms by (induction es) (simp_all add: vec_at_Some)

lemma uncontracted_edges_subset:
  "uncontracted_edges cs es = Some r \<Longrightarrow> set r \<subseteq> set es"
  by (induction es arbitrary: r) (auto split: option.splits if_splits)

text \<open>The graph on which the pair loop of \<open>contract_node\<close> starts.\<close>

definition mark_contracted :: "CHGraph \<Rightarrow> int \<Rightarrow> CHGraph" where
  "mark_contracted g node = g\<lparr>contracted := (contracted g)[nat node := True]\<rparr>"

lemma wf_mark_contracted: "wf_graph g \<Longrightarrow> wf_graph (mark_contracted g node)"
  by (simp add: wf_graph_def mark_contracted_def)

definition in_neighbors_of :: "CHGraph \<Rightarrow> int \<Rightarrow> Edge list" where
  "in_neighbors_of g node =
     filter (\<lambda>e. \<not> (contracted g)[nat node := True] ! nat (target e)) (adj_in g ! nat node)"

definition out_neighbors_of :: "CHGraph \<Rightarrow> int \<Rightarrow> Edge list" where
  "out_neighbors_of g node =
     filter (\<lambda>e. \<not> (contracted g)[nat node := True] ! nat (target e)) (adj_out g ! nat node)"

definition skip_witness_of :: "CHGraph \<Rightarrow> int \<Rightarrow> bool" where
  "skip_witness_of g node \<longleftrightarrow>
     int (length (in_neighbors_of g node)) * int (length (out_neighbors_of g node)) > 500"

lemma contract_node_unfold:
  assumes wf: "wf_graph g" and node: "node_of g node"
  shows "contract_node g node =
           contract_outer (mark_contracted g node) node (skip_witness_of g node)
             (in_neighbors_of g node) (out_neighbors_of g node) 0"
proof -
  let ?cs = "(contracted g)[nat node := True]"
  have put: "vec_put (contracted g) node True = Some ?cs"
    using wf_graph_bounds(3)[OF wf node] by (simp add: vec_put_def)
  have ins: "vec_at (adj_in g) node = Some (adj_in g ! nat node)"
    using wf_graph_bounds(2)[OF wf node] by (simp add: vec_at_Some)
  have outs: "vec_at (adj_out g) node = Some (adj_out g ! nat node)"
    using wf_graph_bounds(1)[OF wf node] by (simp add: vec_at_Some)
  have bcs: "in_bounds ?cs v" if "node_of g v" for v
    using wf_graph_bounds(3)[OF wf that] by (simp add: in_bounds_def)
  have fi: "uncontracted_edges ?cs (adj_in g ! nat node) = Some (in_neighbors_of g node)"
    unfolding in_neighbors_of_def
    by (rule uncontracted_edges_filter) (use wf_graph_in_target[OF wf ins] bcs in blast)
  have fo: "uncontracted_edges ?cs (adj_out g ! nat node) = Some (out_neighbors_of g node)"
    unfolding out_neighbors_of_def
    by (rule uncontracted_edges_filter) (use wf_graph_out_target[OF wf outs] bcs in blast)
  show ?thesis
    by (simp add: contract_node_def put ins outs fi fo mark_contracted_def skip_witness_of_def)
qed

lemma in_neighbors_nodes:
  assumes wf: "wf_graph g" and node: "node_of g node"
  shows "\<forall>e \<in> set (in_neighbors_of g node). node_of (mark_contracted g node) (target e)"
proof -
  have ins: "vec_at (adj_in g) node = Some (adj_in g ! nat node)"
    using wf_graph_bounds(2)[OF wf node] by (simp add: vec_at_Some)
  show ?thesis
    using wf_graph_in_target[OF wf ins]
    by (auto simp: in_neighbors_of_def node_of_def mark_contracted_def)
qed

lemma out_neighbors_nodes:
  assumes wf: "wf_graph g" and node: "node_of g node"
  shows "\<forall>e \<in> set (out_neighbors_of g node). node_of (mark_contracted g node) (target e)"
proof -
  have outs: "vec_at (adj_out g) node = Some (adj_out g ! nat node)"
    using wf_graph_bounds(1)[OF wf node] by (simp add: vec_at_Some)
  show ?thesis
    using wf_graph_out_target[OF wf outs]
    by (auto simp: out_neighbors_of_def node_of_def mark_contracted_def)
qed

lemma contract_node_total:
  assumes wf: "wf_graph g" and node: "node_of g node"
  shows "\<exists>g' k. contract_node g node = Some (g', k) \<and> wf_graph g'
           \<and> same_frame (mark_contracted g node) g'"
proof -
  note wfm = wf_mark_contracted[OF wf, of node]
  from contract_outer_total[OF wfm in_neighbors_nodes[OF wf node] out_neighbors_nodes[OF wf node]]
  obtain g' k where
    run: "contract_outer (mark_contracted g node) node (skip_witness_of g node)
            (in_neighbors_of g node) (out_neighbors_of g node) 0 = Some (g', k)" by blast
  from contract_outer_wf[OF run wfm in_neighbors_nodes[OF wf node] out_neighbors_nodes[OF wf node]]
  show ?thesis using run by (simp add: contract_node_unfold[OF wf node])
qed

section \<open>The edges of a graph, as stored on either side\<close>

text \<open>
  An edge is described by its source, its target, its weight, its shortcut flag and its
  via node. \<open>out_edges\<close> reads the edges off \<open>adj_out\<close>, where the entry at index \<open>u\<close>
  stores the target; \<open>in_edges\<close> reads them off \<open>adj_in\<close>, where the entry at index
  \<open>v\<close> stores the source in its \<open>target\<close> field.
\<close>

type_synonym edge_desc = "int \<times> int \<times> real \<times> bool \<times> int"

fun entries_from :: "nat \<Rightarrow> Edge list list \<Rightarrow> (int \<times> Edge) multiset" where
  "entries_from k [] = {#}"
| "entries_from k (es # rest) = image_mset (Pair (int k)) (mset es) + entries_from (Suc k) rest"

definition out_desc :: "int \<times> Edge \<Rightarrow> edge_desc" where
  "out_desc x = (fst x, target (snd x), weight (snd x), is_shortcut (snd x), via_node (snd x))"

definition in_desc :: "int \<times> Edge \<Rightarrow> edge_desc" where
  "in_desc x = (target (snd x), fst x, weight (snd x), is_shortcut (snd x), via_node (snd x))"

definition out_edges :: "CHGraph \<Rightarrow> edge_desc multiset" where
  "out_edges g = image_mset out_desc (entries_from 0 (adj_out g))"

definition in_edges :: "CHGraph \<Rightarrow> edge_desc multiset" where
  "in_edges g = image_mset in_desc (entries_from 0 (adj_in g))"

lemma entries_from_push:
  "i < length adj \<Longrightarrow>
     entries_from k (adj[i := adj ! i @ [x]]) = add_mset (int (k + i), x) (entries_from k adj)"
proof (induction adj arbitrary: k i)
  case Nil
  then show ?case by simp
next
  case (Cons es adj)
  show ?case
  proof (cases i)
    case 0
    then show ?thesis by simp
  next
    case (Suc j)
    with Cons.prems have "j < length adj" by simp
    from Cons.IH[OF this, of "Suc k"] Suc show ?thesis by simp
  qed
qed

lemma entries_from_replicate: "entries_from k (replicate n []) = {#}"
  by (induction n arbitrary: k) simp_all

lemma entries_from_mem:
  "(u, e) \<in># entries_from k adj \<longleftrightarrow>
     (\<exists>i < length adj. u = int (k + i) \<and> e \<in> set (adj ! i))"
proof (induction adj arbitrary: k)
  case Nil
  then show ?case by simp
next
  case (Cons es adj)
  have "(\<exists>i < length (es # adj). u = int (k + i) \<and> e \<in> set ((es # adj) ! i))
      \<longleftrightarrow> (u = int k \<and> e \<in> set es) \<or> (\<exists>j < length adj. u = int (Suc k + j) \<and> e \<in> set (adj ! j))"
    (is "?L \<longleftrightarrow> ?R")
  proof
    assume ?L
    then obtain i where i: "i < length (es # adj)" "u = int (k + i)" "e \<in> set ((es # adj) ! i)"
      by blast
    then show ?R by (cases i) auto
  next
    assume ?R
    then show ?L
    proof
      assume "u = int k \<and> e \<in> set es"
      then show ?L by (intro exI[of _ 0]) simp
    next
      assume "\<exists>j < length adj. u = int (Suc k + j) \<and> e \<in> set (adj ! j)"
      then obtain j where "j < length adj" "u = int (Suc k + j)" "e \<in> set (adj ! j)" by blast
      then show ?L by (intro exI[of _ "Suc j"]) simp
    qed
  qed
  with Cons.IH[of "Suc k"] show ?case by auto
qed

lemma add_ch_edge_out_edges:
  assumes "add_ch_edge g u v w s via = Some g'"
  shows "out_edges g' = add_mset (u, v, w, s, via) (out_edges g)"
proof -
  note f = add_ch_edge_fields[OF assms]
  have u: "nat u < length (adj_out g)" "0 \<le> u"
    using f(7) by (auto simp: in_bounds_def)
  show ?thesis
    by (simp add: out_edges_def f(5) entries_from_push[OF u(1)] u(2) out_desc_def mk_edge_def)
qed

lemma add_ch_edge_in_edges:
  assumes "add_ch_edge g u v w s via = Some g'"
  shows "in_edges g' = add_mset (u, v, w, s, via) (in_edges g)"
proof -
  note f = add_ch_edge_fields[OF assms]
  have v: "nat v < length (adj_in g)" "0 \<le> v"
    using f(8) by (auto simp: in_bounds_def)
  show ?thesis
    by (simp add: in_edges_def f(6) entries_from_push[OF v(1)] v(2) in_desc_def mk_edge_def)
qed

lemma out_edges_mem:
  "(u, v, w, s, via) \<in># out_edges g \<longleftrightarrow>
     (\<exists>e. in_bounds (adj_out g) u \<and> e \<in> set (adj_out g ! nat u) \<and> target e = v \<and> weight e = w
          \<and> is_shortcut e = s \<and> via_node e = via)"
proof -
  have "(u, v, w, s, via) \<in># out_edges g \<longleftrightarrow>
        (\<exists>e. (u, e) \<in># entries_from 0 (adj_out g) \<and> target e = v \<and> weight e = w
          \<and> is_shortcut e = s \<and> via_node e = via)"
    by (force simp: out_edges_def out_desc_def)
  also have "\<dots> \<longleftrightarrow> (\<exists>e. in_bounds (adj_out g) u \<and> e \<in> set (adj_out g ! nat u) \<and> target e = v
          \<and> weight e = w \<and> is_shortcut e = s \<and> via_node e = via)"
  proof (intro iff_exI)
    fix e
    have "(\<exists>i < length (adj_out g). u = int i \<and> e \<in> set (adj_out g ! i))
       \<longleftrightarrow> in_bounds (adj_out g) u \<and> e \<in> set (adj_out g ! nat u)"
      by (auto simp: in_bounds_def intro: exI[of _ "nat u"])
    then show "((u, e) \<in># entries_from 0 (adj_out g) \<and> target e = v \<and> weight e = w
          \<and> is_shortcut e = s \<and> via_node e = via)
      \<longleftrightarrow> (in_bounds (adj_out g) u \<and> e \<in> set (adj_out g ! nat u) \<and> target e = v
          \<and> weight e = w \<and> is_shortcut e = s \<and> via_node e = via)"
      by (simp add: entries_from_mem)
  qed
  finally show ?thesis .
qed

lemma in_edges_mem:
  "(u, v, w, s, via) \<in># in_edges g \<longleftrightarrow>
     (\<exists>e. in_bounds (adj_in g) v \<and> e \<in> set (adj_in g ! nat v) \<and> target e = u \<and> weight e = w
          \<and> is_shortcut e = s \<and> via_node e = via)"
proof -
  have "(u, v, w, s, via) \<in># in_edges g \<longleftrightarrow>
        (\<exists>e. (v, e) \<in># entries_from 0 (adj_in g) \<and> target e = u \<and> weight e = w
          \<and> is_shortcut e = s \<and> via_node e = via)"
    by (force simp: in_edges_def in_desc_def)
  also have "\<dots> \<longleftrightarrow> (\<exists>e. in_bounds (adj_in g) v \<and> e \<in> set (adj_in g ! nat v) \<and> target e = u
          \<and> weight e = w \<and> is_shortcut e = s \<and> via_node e = via)"
  proof (intro iff_exI)
    fix e
    have "(\<exists>i < length (adj_in g). v = int i \<and> e \<in> set (adj_in g ! i))
       \<longleftrightarrow> in_bounds (adj_in g) v \<and> e \<in> set (adj_in g ! nat v)"
      by (auto simp: in_bounds_def intro: exI[of _ "nat v"])
    then show "((v, e) \<in># entries_from 0 (adj_in g) \<and> target e = u \<and> weight e = w
          \<and> is_shortcut e = s \<and> via_node e = via)
      \<longleftrightarrow> (in_bounds (adj_in g) v \<and> e \<in> set (adj_in g ! nat v) \<and> target e = u
          \<and> weight e = w \<and> is_shortcut e = s \<and> via_node e = via)"
      by (simp add: entries_from_mem)
  qed
  finally show ?thesis .
qed

text \<open>
  The shortcuts that one run of the pair loop inserts: \<open>k\<close> more edges on either side,
  each a shortcut through \<open>node\<close> between two different nodes.
\<close>

definition inserted_shortcuts ::
  "CHGraph \<Rightarrow> int \<Rightarrow> Edge list \<Rightarrow> Edge list \<Rightarrow> CHGraph \<Rightarrow> int \<Rightarrow> bool" where
  "inserted_shortcuts g node ins outs g' k \<longleftrightarrow>
     (\<exists>S. out_edges g' = out_edges g + S \<and> in_edges g' = in_edges g + S \<and> int (size S) = k
        \<and> (\<forall>x \<in># S. \<exists>ie \<in> set ins. \<exists>oe \<in> set outs. target ie \<noteq> target oe
              \<and> x = (target ie, target oe, weight ie + weight oe, True, node)))"

lemma contract_outer_count:
  assumes run: "contract_outer g node sw ins outs 0 = Some (g', k')"
  shows "0 \<le> k' \<and> k' \<le> 100 \<and> inserted_shortcuts g node ins outs g' k'"
proof (rule contract_outer_rule[where
      Q = "\<lambda>x k. 0 \<le> k \<and> k \<le> 100 \<and> inserted_shortcuts g node ins outs x k", OF run])
  have "out_edges g = out_edges g + {#} \<and> in_edges g = in_edges g + {#}" by simp
  then show "0 \<le> (0::int) \<and> (0::int) \<le> 100 \<and> inserted_shortcuts g node ins outs g 0"
    unfolding inserted_shortcuts_def by (intro conjI exI[of _ "{#}"]) simp_all
next
  fix g0 k0 ie oe g1
  assume Q: "0 \<le> k0 \<and> k0 \<le> 100 \<and> inserted_shortcuts g node ins outs g0 k0"
    and ie: "ie \<in> set ins" and oe: "oe \<in> set outs" and ne: "target ie \<noteq> target oe"
    and k0: "k0 < 100"
    and add: "add_ch_edge g0 (target ie) (target oe) (weight ie + weight oe) True node = Some g1"
  let ?x = "(target ie, target oe, weight ie + weight oe, True, node)"
  from Q obtain S where S: "out_edges g0 = out_edges g + S" "in_edges g0 = in_edges g + S"
    "int (size S) = k0"
    "\<forall>x \<in># S. \<exists>ie \<in> set ins. \<exists>oe \<in> set outs. target ie \<noteq> target oe
              \<and> x = (target ie, target oe, weight ie + weight oe, True, node)"
    unfolding inserted_shortcuts_def by blast
  have "out_edges g1 = out_edges g + add_mset ?x S"
    using add_ch_edge_out_edges[OF add] S(1) by simp
  moreover have "in_edges g1 = in_edges g + add_mset ?x S"
    using add_ch_edge_in_edges[OF add] S(2) by simp
  moreover have "int (size (add_mset ?x S)) = k0 + 1" using S(3) by simp
  moreover have "\<forall>x \<in># add_mset ?x S. \<exists>ie \<in> set ins. \<exists>oe \<in> set outs. target ie \<noteq> target oe
              \<and> x = (target ie, target oe, weight ie + weight oe, True, node)"
    using S(4) ie oe ne by auto
  ultimately have "inserted_shortcuts g node ins outs g1 (k0 + 1)"
    unfolding inserted_shortcuts_def by blast
  with Q k0 show "0 \<le> k0 + 1 \<and> k0 + 1 \<le> 100 \<and> inserted_shortcuts g node ins outs g1 (k0 + 1)"
    by simp
qed

lemma contract_inner_at_cap:
  "contract_inner g node sw u d outs 100 = Some (list_ex (\<lambda>oe. u \<noteq> target oe) outs, g, 100)"
  by (induction outs) auto

lemma contract_outer_at_cap:
  "contract_outer g node sw ins outs 100 = Some (g, 100)"
  by (induction ins) (simp_all add: contract_inner_at_cap)

lemma contract_inner_self_pair:
  "u = target oe \<Longrightarrow>
     contract_inner g node sw u d (oe # rest) k = contract_inner g node sw u d rest k"
  by simp

lemma out_edges_mark_contracted [simp]:
  "out_edges (mark_contracted g node) = out_edges g"
  "in_edges (mark_contracted g node) = in_edges g"
  by (simp_all add: out_edges_def in_edges_def mark_contracted_def)

lemma contract_node_edges:
  assumes wf: "wf_graph g" and node: "node_of g node"
    and run: "contract_node g node = Some (g', k)"
  shows "0 \<le> k \<and> k \<le> 100
         \<and> inserted_shortcuts g node (in_neighbors_of g node) (out_neighbors_of g node) g' k"
proof -
  from run have "contract_outer (mark_contracted g node) node (skip_witness_of g node)
             (in_neighbors_of g node) (out_neighbors_of g node) 0 = Some (g', k)"
    by (simp add: contract_node_unfold[OF wf node])
  from contract_outer_count[OF this] show ?thesis
    by (simp add: inserted_shortcuts_def)
qed

lemma contract_node_Some_node:
  assumes "contract_node g node = Some x" "wf_graph g"
  shows "node_of g node"
  using assms
  by (auto simp: contract_node_def vec_put_def in_bounds_def wf_graph_def node_of_def
      split: option.splits if_splits)

text \<open>A loop rule for \<open>build_ch\<close>: an invariant of \<open>rank[node] = r++; contract_node(node)\<close>.\<close>

lemma build_loop_rule:
  assumes "build_loop g order r = Some g'"
    and "Q g r"
    and "\<And>g0 r0 node rk g1 k. Q g0 r0 \<Longrightarrow> node \<in> set order \<Longrightarrow>
           vec_put (rank g0) node r0 = Some rk \<Longrightarrow>
           contract_node (g0\<lparr>rank := rk\<rparr>) node = Some (g1, k) \<Longrightarrow> Q g1 (r0 + 1)"
  shows "Q g' (r + int (length order))"
  using assms
proof (induction order arbitrary: g r)
  case Nil
  then show ?case by simp
next
  case (Cons node order)
  from Cons.prems(1) obtain rk g1 k where
    rk: "vec_put (rank g) node r = Some rk"
    and c: "contract_node (g\<lparr>rank := rk\<rparr>) node = Some (g1, k)"
    and rest: "build_loop g1 order (r + 1) = Some g'"
    by (auto split: option.splits)
  have Q1: "Q g1 (r + 1)" by (rule Cons.prems(3)[OF Cons.prems(2) _ rk c]) simp
  have "Q g' (r + 1 + int (length order))"
    by (rule Cons.IH[OF rest Q1]) (rule Cons.prems(3), auto)
  moreover have "r + 1 + int (length order) = r + int (length (node # order))" by simp
  ultimately show ?case by (simp only:)
qed

lemma wf_graph_rank_update:
  assumes "wf_graph g" "vec_put (rank g) node r = Some rk"
  shows "wf_graph (g\<lparr>rank := rk\<rparr>)" "node_of g node"
  using assms by (auto simp: wf_graph_def vec_put_def in_bounds_def node_of_def split: if_splits)

lemma build_loop_wf:
  assumes run: "build_loop g order r = Some g'" and wf: "wf_graph g"
  shows "wf_graph g' \<and> num_nodes g' = num_nodes g"
proof -
  have "wf_graph g' \<and> num_nodes g' = num_nodes g"
  proof (rule build_loop_rule[where Q = "\<lambda>x r. wf_graph x \<and> num_nodes x = num_nodes g", OF run])
    show "wf_graph g \<and> num_nodes g = num_nodes g" using wf by simp
  next
    fix g0 r0 node rk g1 k
    assume Q: "wf_graph g0 \<and> num_nodes g0 = num_nodes g"
      and rk: "vec_put (rank g0) node r0 = Some rk"
      and c: "contract_node (g0\<lparr>rank := rk\<rparr>) node = Some (g1, k)"
    have wf0: "wf_graph (g0\<lparr>rank := rk\<rparr>)" and n: "node_of (g0\<lparr>rank := rk\<rparr>) node"
      using wf_graph_rank_update[OF _ rk] Q by (simp_all add: node_of_def)
    from contract_node_total[OF wf0 n] c Q
    show "wf_graph g1 \<and> num_nodes g1 = num_nodes g"
      by (auto simp: same_frame_def mark_contracted_def)
  qed
  then show ?thesis .
qed

lemma wf_graph_init: "CHGraph_init n = Some g \<Longrightarrow> wf_graph g"
  by (auto simp: CHGraph_init_def wf_graph_def edges_in_range_def split: if_splits)

lemma add_ch_edge_wf':
  assumes "wf_graph g" "add_ch_edge g u v w s via = Some g'"
  shows "wf_graph g'"
proof -
  note f = add_ch_edge_fields[OF assms(2)]
  have "node_of g u" "node_of g v"
    using f(7,8) assms(1) by (auto simp: in_bounds_def wf_graph_def node_of_def)
  from add_ch_edge_wf[OF assms(1) this assms(2)] show ?thesis .
qed

lemma set_rank_wf:
  assumes "wf_graph g" "set_rank g u r = Some g'"
  shows "wf_graph g'"
  using assms
  by (auto simp: set_rank_def wf_graph_def vec_put_def split: if_splits option.splits)

lemma build_ch_wf:
  assumes "wf_graph g" "build_ch g order = Some g'"
  shows "wf_graph g'"
proof -
  have "wf_graph (g\<lparr>node_order := order\<rparr>)" using assms(1) by (simp add: wf_graph_def)
  from build_loop_wf[OF _ this] assms(2) show ?thesis by (simp add: build_ch_def)
qed

section \<open>Symmetry of the adjacency\<close>

text \<open>The graphs that the exported operations can build.\<close>

inductive constructed :: "CHGraph \<Rightarrow> bool" where
  init: "CHGraph_init n = Some g \<Longrightarrow> constructed g"
| add_edge: "constructed g \<Longrightarrow> add_edge g u v w = Some g' \<Longrightarrow> constructed g'"
| add_ch_edge: "constructed g \<Longrightarrow> add_ch_edge g u v w s via = Some g' \<Longrightarrow> constructed g'"
| set_rank: "constructed g \<Longrightarrow> set_rank g u r = Some g' \<Longrightarrow> constructed g'"
| build_ch: "constructed g \<Longrightarrow> build_ch g order = Some g' \<Longrightarrow> constructed g'"

lemma constructed_wf: "constructed g \<Longrightarrow> wf_graph g"
proof (induction rule: constructed.induct)
  case (init n g)
  then show ?case by (rule wf_graph_init)
next
  case (add_edge g u v w g')
  then show ?case by (simp add: add_edge_eq_add_ch_edge add_ch_edge_wf')
next
  case (add_ch_edge g u v w s via g')
  then show ?case by (simp add: add_ch_edge_wf')
next
  case (set_rank g u r g')
  then show ?case by (simp add: set_rank_wf)
next
  case (build_ch g order g')
  then show ?case by (simp add: build_ch_wf)
qed

lemma build_loop_symmetric:
  assumes run: "build_loop g order r = Some g'" and wf: "wf_graph g"
    and sym: "out_edges g = in_edges g"
  shows "out_edges g' = in_edges g'"
proof -
  have "wf_graph g' \<and> out_edges g' = in_edges g'"
  proof (rule build_loop_rule[where Q = "\<lambda>x r. wf_graph x \<and> out_edges x = in_edges x", OF run])
    show "wf_graph g \<and> out_edges g = in_edges g" using wf sym by simp
  next
    fix g0 r0 node rk g1 k
    assume Q: "wf_graph g0 \<and> out_edges g0 = in_edges g0"
      and rk: "vec_put (rank g0) node r0 = Some rk"
      and c: "contract_node (g0\<lparr>rank := rk\<rparr>) node = Some (g1, k)"
    have wf0: "wf_graph (g0\<lparr>rank := rk\<rparr>)" and n: "node_of (g0\<lparr>rank := rk\<rparr>) node"
      using wf_graph_rank_update[OF _ rk] Q by (simp_all add: node_of_def)
    have e0: "out_edges (g0\<lparr>rank := rk\<rparr>) = in_edges (g0\<lparr>rank := rk\<rparr>)"
      using Q by (simp add: out_edges_def in_edges_def)
    from contract_node_edges[OF wf0 n c] e0 have "out_edges g1 = in_edges g1"
      by (auto simp: inserted_shortcuts_def)
    moreover from contract_node_total[OF wf0 n] c have "wf_graph g1" by auto
    ultimately show "wf_graph g1 \<and> out_edges g1 = in_edges g1" by simp
  qed
  then show ?thesis ..
qed

lemma constructed_symmetric: "constructed g \<Longrightarrow> out_edges g = in_edges g"
proof (induction rule: constructed.induct)
  case (init n g)
  then show ?case
    by (auto simp: CHGraph_init_def out_edges_def in_edges_def entries_from_replicate
        split: if_splits)
next
  case (add_edge g u v w g')
  then show ?case
    by (simp add: add_edge_eq_add_ch_edge add_ch_edge_out_edges add_ch_edge_in_edges)
next
  case (add_ch_edge g u v w s via g')
  then show ?case by (simp add: add_ch_edge_out_edges add_ch_edge_in_edges)
next
  case (set_rank g u r g')
  then show ?case
    by (auto simp: set_rank_def out_edges_def in_edges_def split: if_splits option.splits)
next
  case (build_ch g order g')
  have "wf_graph (g\<lparr>node_order := order\<rparr>)"
    using constructed_wf[OF build_ch.hyps(1)] by (simp add: wf_graph_def)
  moreover have "out_edges (g\<lparr>node_order := order\<rparr>) = in_edges (g\<lparr>node_order := order\<rparr>)"
    using build_ch.IH by (simp add: out_edges_def in_edges_def)
  ultimately show ?case
    using build_loop_symmetric build_ch.hyps(2) by (simp add: build_ch_def)
qed

section \<open>Concrete graphs\<close>

text \<open>The graph \<open>CHGraph(1)\<close>: one node, no edges.\<close>

definition single_node :: CHGraph where
  "single_node = \<lparr>num_nodes = 1, adj_out = [[]], adj_in = [[]], contracted = [False],
                   rank = [- 1], node_order = []\<rparr>"

lemma init_single_node: "CHGraph_init 1 = Some single_node"
  by (simp add: CHGraph_init_def single_node_def)

text \<open>
  Scenario 1 of the specification: three nodes, base edges \<open>0 \<rightarrow> 1\<close> of weight 2000 and
  \<open>1 \<rightarrow> 2\<close> of weight 3000; \<open>path3_contracted\<close> is that graph after \<open>contract_node(1)\<close>
  and \<open>path3_built\<close> after \<open>build_ch([1, 0, 2])\<close>.
\<close>

definition path3 :: CHGraph where
  "path3 = \<lparr>num_nodes = 3,
             adj_out = [[mk_edge 1 2000 False (- 1)], [mk_edge 2 3000 False (- 1)], []],
             adj_in = [[], [mk_edge 0 2000 False (- 1)], [mk_edge 1 3000 False (- 1)]],
             contracted = [False, False, False],
             rank = [- 1, - 1, - 1],
             node_order = []\<rparr>"

definition path3_contracted :: CHGraph where
  "path3_contracted = \<lparr>num_nodes = 3,
             adj_out = [[mk_edge 1 2000 False (- 1), mk_edge 2 5000 True 1],
                        [mk_edge 2 3000 False (- 1)], []],
             adj_in = [[], [mk_edge 0 2000 False (- 1)],
                       [mk_edge 1 3000 False (- 1), mk_edge 0 5000 True 1]],
             contracted = [False, True, False],
             rank = [- 1, - 1, - 1],
             node_order = []\<rparr>"

definition path3_built :: CHGraph where
  "path3_built = \<lparr>num_nodes = 3,
             adj_out = [[mk_edge 1 2000 False (- 1), mk_edge 2 5000 True 1],
                        [mk_edge 2 3000 False (- 1)], []],
             adj_in = [[], [mk_edge 0 2000 False (- 1)],
                       [mk_edge 1 3000 False (- 1), mk_edge 0 5000 True 1]],
             contracted = [True, True, True],
             rank = [1, 0, 2],
             node_order = [1, 0, 2]\<rparr>"

lemma path3_steps:
  "Option.bind (Option.bind (CHGraph_init 3) (\<lambda>g. add_edge g 0 1 2000))
     (\<lambda>g. add_edge g 1 2 3000) = Some path3"
  by (simp add: CHGraph_init_def add_edge_def push_back_at_def in_bounds_def path3_def
      numeral_3_eq_3)

lemma path3_contract: "contract_node path3 1 = Some (path3_contracted, 1)"
  by code_simp

lemma path3_build: "build_ch path3 [1, 0, 2] = Some path3_built"
  by code_simp

lemma wf_path3: "wf_graph path3"
  by (simp add: wf_graph_def path3_def edges_in_range_def mk_edge_def)

lemma constructed_path3: "constructed path3"
proof -
  from path3_steps obtain g0 g1 where
    s: "CHGraph_init 3 = Some g0" "add_edge g0 0 1 2000 = Some g1"
       "add_edge g1 1 2 3000 = Some path3"
    by (auto simp: bind_eq_Some_conv)
  have "constructed g0" by (rule constructed.init[OF s(1)])
  then have "constructed g1" by (rule constructed.add_edge[OF _ s(2)])
  then show ?thesis by (rule constructed.add_edge[OF _ s(3)])
qed

lemma constructed_path3_built: "constructed path3_built"
  using constructed.build_ch[OF constructed_path3 path3_build] .

text \<open>
  Two nodes joined by an edge in each direction, \<open>add_edge(0, 1, 1000)\<close> and
  \<open>add_edge(1, 0, 1000)\<close>, and the result of \<open>build_ch([0, 1])\<close> on it.
\<close>

definition two_cycle :: CHGraph where
  "two_cycle = \<lparr>num_nodes = 2,
     adj_out = [[mk_edge 1 1000 False (- 1)], [mk_edge 0 1000 False (- 1)]],
     adj_in = [[mk_edge 1 1000 False (- 1)], [mk_edge 0 1000 False (- 1)]],
     contracted = [False, False],
     rank = [- 1, - 1],
     node_order = []\<rparr>"

definition two_cycle_built :: CHGraph where
  "two_cycle_built = two_cycle\<lparr>contracted := [True, True], rank := [0, 1],
                               node_order := [0, 1]\<rparr>"


lemma two_cycle_build: "build_ch two_cycle [0, 1] = Some two_cycle_built"
  by code_simp

lemma two_cycle_query: "query two_cycle_built 0 0 = Some ([0, 1, 0], Fin 2)"
  by code_simp

section \<open>The mutators and their index checks\<close>

text \<open>
  Claim C10. \<open>set_rank(u, r)\<close> with \<open>u\<close> outside \<open>[0, N)\<close> returns normally and leaves
  the whole graph state (adjacency, ranks, contracted flags) as it was; no error is raised.
\<close>

theorem set_rank_out_of_range_noop:
  "\<not> (0 \<le> u \<and> u < num_nodes g) \<Longrightarrow> set_rank g u r = Some g"
  unfolding set_rank_def by (simp only: if_False)

theorem set_rank_out_of_range_noop_witness:
  "\<not> (0 \<le> (5::int) \<and> 5 < num_nodes single_node)
   \<and> set_rank single_node 5 7 = Some single_node"
  using set_rank_out_of_range_noop[of 5 single_node 7]
  by (simp add: single_node_def)




section \<open>Queries from a node to itself\<close>

text \<open>
  Claim C2 expects \<open>query(0, 0)\<close> on the one-node graph to return the path \<open>[0]\<close> with
  distance \<open>0.0\<close>, and \<open>query(s, s)\<close> to return distance \<open>0.0\<close> for every node. The loop
  of \<open>query\<close> records a meeting node only when it relaxes an edge. With \<open>origin = dest\<close>
  and no edge, \<open>meet_node\<close> stays \<open>-1\<close> and the function returns the empty path; on the
  two-node cycle built with the ordering \<open>[0, 1]\<close> the two searches from node 0 meet in
  node 1 and the function returns the path \<open>[0, 1, 0]\<close> with distance \<open>2.0\<close>.
\<close>

theorem query_single_node_empty:
  "CHGraph_init 1 = Some single_node \<and> query single_node 0 0 = Some ([], Fin 0)
   \<and> build_ch two_cycle [0, 1] = Some two_cycle_built
   \<and> query two_cycle_built 0 0 = Some ([0, 1, 0], Fin 2)"
  using two_cycle_build two_cycle_query
  by (simp add: init_single_node query_def query_search_def init_search_def single_node_def
      vec_put_def in_bounds_def half_step_def vec_at_def query_loop.simps)

section \<open>Adjacency symmetry and the shortcut cap\<close>

text \<open>
  Claim C5. After any sequence of \<open>add_edge\<close>, \<open>add_ch_edge\<close>, \<open>set_rank\<close> and
  \<open>build_ch\<close> calls that index inside the graph, the edges read off \<open>adj_out\<close> and the
  edges read off \<open>adj_in\<close> are the same multiset; in particular every entry of
  \<open>adj_out[u]\<close> with target \<open>v\<close> has an entry in \<open>adj_in[v]\<close> that stores \<open>u\<close> and has
  the same weight, shortcut flag and via node. Every insertion (by \<open>add_edge\<close>, by
  \<open>add_ch_edge\<close>, or one shortcut of \<open>contract_node\<close>) adds exactly one edge to each side.
\<close>

theorem adjacency_symmetric:
  assumes "constructed g"
  shows "out_edges g = in_edges g
    \<and> (\<forall>u e. in_bounds (adj_out g) u \<and> e \<in> set (adj_out g ! nat u) \<longrightarrow>
          in_bounds (adj_in g) (target e)
          \<and> (\<exists>e' \<in> set (adj_in g ! nat (target e)).
                target e' = u \<and> weight e' = weight e \<and> is_shortcut e' = is_shortcut e
                \<and> via_node e' = via_node e))
    \<and> (\<forall>u v w g'. add_edge g u v w = Some g' \<longrightarrow>
          out_edges g' = add_mset (u, v, w, False, - 1) (out_edges g)
          \<and> in_edges g' = add_mset (u, v, w, False, - 1) (in_edges g))
    \<and> (\<forall>u v w s via g'. add_ch_edge g u v w s via = Some g' \<longrightarrow>
          out_edges g' = add_mset (u, v, w, s, via) (out_edges g)
          \<and> in_edges g' = add_mset (u, v, w, s, via) (in_edges g))
    \<and> (\<forall>node g' k. contract_node g node = Some (g', k) \<longrightarrow>
          (\<exists>S. out_edges g' = out_edges g + S \<and> in_edges g' = in_edges g + S
              \<and> int (size S) = k))"
proof (intro conjI allI impI)
  show sym: "out_edges g = in_edges g" by (rule constructed_symmetric[OF assms])
  fix u e
  assume a: "in_bounds (adj_out g) u \<and> e \<in> set (adj_out g ! nat u)"
  then have "(u, target e, weight e, is_shortcut e, via_node e) \<in># out_edges g"
    unfolding out_edges_mem by blast
  then have "(u, target e, weight e, is_shortcut e, via_node e) \<in># in_edges g"
    by (simp add: sym)
  then obtain e' where e': "in_bounds (adj_in g) (target e)"
    "e' \<in> set (adj_in g ! nat (target e))" "target e' = u" "weight e' = weight e"
    "is_shortcut e' = is_shortcut e" "via_node e' = via_node e"
    unfolding in_edges_mem by blast
  show "in_bounds (adj_in g) (target e)" by (rule e'(1))
  show "\<exists>e' \<in> set (adj_in g ! nat (target e)).
          target e' = u \<and> weight e' = weight e \<and> is_shortcut e' = is_shortcut e
          \<and> via_node e' = via_node e"
    using e'(2-6) by blast
next
  fix u v w g'
  assume "add_edge g u v w = Some g'"
  then have a: "add_ch_edge g u v w False (- 1) = Some g'" by (simp add: add_edge_eq_add_ch_edge)
  show "out_edges g' = add_mset (u, v, w, False, - 1) (out_edges g)"
    by (rule add_ch_edge_out_edges[OF a])
  show "in_edges g' = add_mset (u, v, w, False, - 1) (in_edges g)"
    by (rule add_ch_edge_in_edges[OF a])
next
  fix u v w s via g'
  assume a: "add_ch_edge g u v w s via = Some g'"
  show "out_edges g' = add_mset (u, v, w, s, via) (out_edges g)"
    by (rule add_ch_edge_out_edges[OF a])
  show "in_edges g' = add_mset (u, v, w, s, via) (in_edges g)"
    by (rule add_ch_edge_in_edges[OF a])
next
  fix node g' k
  assume c: "contract_node g node = Some (g', k)"
  note wf = constructed_wf[OF assms]
  from contract_node_edges[OF wf contract_node_Some_node[OF c wf] c]
  show "\<exists>S. out_edges g' = out_edges g + S \<and> in_edges g' = in_edges g + S \<and> int (size S) = k"
    unfolding inserted_shortcuts_def by blast
qed

theorem adjacency_symmetric_witness:
  "constructed path3_built
   \<and> out_edges path3_built = in_edges path3_built
   \<and> in_bounds (adj_out path3_built) 0
   \<and> mk_edge 2 5000 True 1 \<in> set (adj_out path3_built ! nat 0)
   \<and> (\<exists>e' \<in> set (adj_in path3_built ! nat 2).
         target e' = 0 \<and> weight e' = 5000 \<and> is_shortcut e' \<and> via_node e' = 1)"
proof -
  have b: "in_bounds (adj_out path3_built) 0 \<and>
           mk_edge 2 5000 True 1 \<in> set (adj_out path3_built ! nat 0)"
    by (simp add: path3_built_def in_bounds_def)
  with adjacency_symmetric[OF constructed_path3_built] constructed_path3_built
  have "\<exists>e' \<in> set (adj_in path3_built ! nat (target (mk_edge 2 5000 True 1))).
          target e' = 0 \<and> weight e' = weight (mk_edge 2 5000 True 1)
          \<and> is_shortcut e' = is_shortcut (mk_edge 2 5000 True 1)
          \<and> via_node e' = via_node (mk_edge 2 5000 True 1)"
    by blast
  then have "\<exists>e' \<in> set (adj_in path3_built ! nat 2).
         target e' = 0 \<and> weight e' = 5000 \<and> is_shortcut e' \<and> via_node e' = 1"
    by (simp add: mk_edge_def)
  with b adjacency_symmetric[OF constructed_path3_built] constructed_path3_built
  show ?thesis by blast
qed

text \<open>
  Claim C7. On a well-formed graph \<open>contract_node(v)\<close> returns, with a result \<open>k\<close> between
  0 and 100, and has inserted exactly \<open>k\<close> edges on either side, every one of them a
  shortcut through \<open>v\<close> from an uncontracted in-neighbour \<open>u\<close> to an uncontracted
  out-neighbour \<open>w \<noteq> u\<close>. With the counter at 100 the pair loop inserts nothing more,
  whatever pairs remain; a pair with \<open>u = w\<close> is passed over at any counter value.
\<close>

theorem contract_node_shortcut_cap:
  assumes "wf_graph g" "node_of g v"
  shows "(\<exists>g' k. contract_node g v = Some (g', k) \<and> 0 \<le> k \<and> k \<le> 100
            \<and> inserted_shortcuts g v (in_neighbors_of g v) (out_neighbors_of g v) g' k)
    \<and> (\<forall>h sw ins outs. contract_outer h v sw ins outs 100 = Some (h, 100))
    \<and> (\<forall>h sw u d oe rest c. u = target oe \<longrightarrow>
          contract_inner h v sw u d (oe # rest) c = contract_inner h v sw u d rest c)"
proof (intro conjI allI impI)
  from contract_node_total[OF assms] obtain g' k where
    c: "contract_node g v = Some (g', k)" by blast
  from contract_node_edges[OF assms c] c
  show "\<exists>g' k. contract_node g v = Some (g', k) \<and> 0 \<le> k \<and> k \<le> 100
            \<and> inserted_shortcuts g v (in_neighbors_of g v) (out_neighbors_of g v) g' k"
    by blast
next
  fix h sw ins outs
  show "contract_outer h v sw ins outs 100 = Some (h, 100)" by (rule contract_outer_at_cap)
next
  fix h sw u d rest c and oe :: Edge
  assume "u = target oe"
  then show "contract_inner h v sw u d (oe # rest) c = contract_inner h v sw u d rest c"
    by (rule contract_inner_self_pair)
qed

theorem contract_node_shortcut_cap_witness:
  "wf_graph path3 \<and> node_of path3 1
   \<and> contract_node path3 1 = Some (path3_contracted, 1)
   \<and> inserted_shortcuts path3 1 (in_neighbors_of path3 1) (out_neighbors_of path3 1)
        path3_contracted 1
   \<and> contract_outer path3 1 False [mk_edge 0 2000 False (- 1)] [mk_edge 2 3000 False (- 1)] 100
        = Some (path3, 100)"
proof -
  have n: "node_of path3 1" by (simp add: node_of_def path3_def)
  from contract_node_shortcut_cap[OF wf_path3 n] path3_contract wf_path3 n
  show ?thesis by auto
qed

section \<open>Ranks assigned by the builder\<close>




lemma contract_node_frame:
  assumes wf: "wf_graph g" and node: "node_of g node"
    and run: "contract_node g node = Some (g', k)"
  shows "wf_graph g'" "num_nodes g' = num_nodes g" "rank g' = rank g"
    "contracted g' = (contracted g)[nat node := True]" "node_order g' = node_order g"
  using contract_node_total[OF wf node] run
  by (auto simp: same_frame_def mark_contracted_def)






section \<open>Termination of unpacking\<close>

text \<open>
  The graphs whose shortcuts all come from \<open>contract_node\<close>: built by the constructor,
  \<open>add_edge\<close>, \<open>set_rank\<close> and \<open>build_ch\<close>, without \<open>add_ch_edge\<close>.
\<close>

inductive hierarchy :: "CHGraph \<Rightarrow> bool" where
  init: "CHGraph_init n = Some g \<Longrightarrow> hierarchy g"
| add_edge: "hierarchy g \<Longrightarrow> add_edge g u v w = Some g' \<Longrightarrow> hierarchy g'"
| set_rank: "hierarchy g \<Longrightarrow> set_rank g u r = Some g' \<Longrightarrow> hierarchy g'"
| build_ch: "hierarchy g \<Longrightarrow> build_ch g order = Some g' \<Longrightarrow> hierarchy g'"

lemma hierarchy_constructed: "hierarchy g \<Longrightarrow> constructed g"
  by (induction rule: hierarchy.induct)
     (auto intro: constructed.init constructed.add_edge constructed.set_rank constructed.build_ch)

text \<open>
  A level function orders the contractions: contracted nodes lie below \<open>T\<close>, the others
  at \<open>T\<close>, and the via node of a shortcut lies strictly below both its ends.
\<close>

definition shortcut_levelled :: "(int \<Rightarrow> nat) \<Rightarrow> CHGraph \<Rightarrow> edge_desc \<Rightarrow> bool" where
  "shortcut_levelled lv g x =
     (case x of (u, w, t, s, via) \<Rightarrow>
        s \<and> via \<noteq> - 1 \<longrightarrow> node_of g via \<and> lv via < lv u \<and> lv via < lv w)"

definition levels :: "(int \<Rightarrow> nat) \<Rightarrow> nat \<Rightarrow> CHGraph \<Rightarrow> bool" where
  "levels lv T g \<longleftrightarrow>
     (\<forall>v. node_of g v \<longrightarrow> (if contracted g ! nat v then lv v < T else lv v = T))
     \<and> (\<forall>x \<in># out_edges g. shortcut_levelled lv g x)"

lemma out_edges_nodes:
  assumes "wf_graph g" "(u, w, t, s, via) \<in># out_edges g"
  shows "node_of g u" "node_of g w"
proof -
  from assms(2) obtain e where e: "in_bounds (adj_out g) u" "e \<in> set (adj_out g ! nat u)"
    "target e = w" unfolding out_edges_mem by blast
  from e(1) assms(1) show "node_of g u" by (simp add: in_bounds_def wf_graph_def node_of_def)
  from e(1) have "vec_at (adj_out g) u = Some (adj_out g ! nat u)" by (rule vec_at_Some)
  from wf_graph_out_target[OF assms(1) this e(2)] e(3) show "node_of g w" by simp
qed

lemma contract_node_levels:
  assumes wf: "wf_graph g" and node: "node_of g node" and lv: "levels lv T g"
    and run: "contract_node g node = Some (g', k)"
  shows "\<exists>lv' T'. levels lv' T' g'"
proof -
  define lv' where "lv' x = (if x = node \<or> contracted g ! nat x then lv x else Suc T)" for x
  note f = contract_node_frame[OF wf node run]
  have nodes: "node_of g' v = node_of g v" for v using f(2) by (simp add: node_of_def)
  have len: "nat v < length (contracted g)" if "node_of g v" for v
    using that wf by (auto simp: node_of_def wf_graph_def)
  have c': "contracted g' ! nat v \<longleftrightarrow> v = node \<or> contracted g ! nat v" if "node_of g v" for v
  proof (cases "v = node")
    case True
    with len[OF node] show ?thesis by (simp add: f(4))
  next
    case False
    with that node have "nat v \<noteq> nat node" by (auto simp: node_of_def)
    then show ?thesis using False by (simp add: f(4))
  qed
  have oldlv: "if contracted g ! nat v then lv v < T else lv v = T" if "node_of g v" for v
    using lv that by (simp add: levels_def)
  have mono: "lv v \<le> lv' v" if "node_of g v" for v
    using oldlv[OF that] by (auto simp: lv'_def split: if_splits)
  have part1: "if contracted g' ! nat v then lv' v < Suc T else lv' v = Suc T"
    if "node_of g' v" for v
  proof -
    from that have n: "node_of g v" by (simp add: nodes)
    show ?thesis using oldlv[OF n] c'[OF n] by (auto simp: lv'_def split: if_splits)
  qed
  from contract_node_edges[OF wf node run] obtain S where
    S: "out_edges g' = out_edges g + S"
    "\<forall>x \<in># S. \<exists>ie \<in> set (in_neighbors_of g node). \<exists>oe \<in> set (out_neighbors_of g node).
        target ie \<noteq> target oe \<and> x = (target ie, target oe, weight ie + weight oe, True, node)"
    unfolding inserted_shortcuts_def by blast
  have uncontracted: "lv' x = Suc T"
    if "node_of g x" "\<not> (contracted g)[nat node := True] ! nat x" for x
  proof -
    from that(2) f(4) have "\<not> contracted g' ! nat x" by simp
    with c'[OF that(1)] show ?thesis by (simp add: lv'_def)
  qed
  have at_node: "lv' node \<le> T" using oldlv[OF node] by (auto simp: lv'_def split: if_splits)
  have part2: "shortcut_levelled lv' g' x" if "x \<in># out_edges g'" for x
  proof -
    from that S(1) consider (old) "x \<in># out_edges g" | (new) "x \<in># S" by auto
    then show ?thesis
    proof cases
      case old
      obtain u w t s via where x: "x = (u, w, t, s, via)" by (cases x)
      note uw = out_edges_nodes[OF wf old[unfolded x]]
      show ?thesis
      proof (cases "s \<and> via \<noteq> - 1")
        case False
        then show ?thesis by (auto simp: shortcut_levelled_def x)
      next
        case True
        with lv old have v: "node_of g via" "lv via < lv u" "lv via < lv w"
          by (auto simp: levels_def shortcut_levelled_def x)
        from \<open>lv via < lv u\<close> oldlv[OF uw(1)] have "lv via < T" by (auto split: if_splits)
        with oldlv[OF v(1)] have "contracted g ! nat via" by (auto split: if_splits)
        then have "lv' via = lv via" by (simp add: lv'_def)
        with v mono[OF uw(1)] mono[OF uw(2)] show ?thesis
          by (simp add: shortcut_levelled_def x nodes)
      qed
    next
      case new
      with S(2) obtain ie oe where
        ie: "ie \<in> set (in_neighbors_of g node)" and oe: "oe \<in> set (out_neighbors_of g node)"
        and x: "x = (target ie, target oe, weight ie + weight oe, True, node)" by blast
      have "node_of g (target ie)" "\<not> (contracted g)[nat node := True] ! nat (target ie)"
        using in_neighbors_nodes[OF wf node] ie
        by (auto simp: in_neighbors_of_def node_of_def mark_contracted_def)
      then have a: "lv' (target ie) = Suc T" by (rule uncontracted)
      have "node_of g (target oe)" "\<not> (contracted g)[nat node := True] ! nat (target oe)"
        using out_neighbors_nodes[OF wf node] oe
        by (auto simp: out_neighbors_of_def node_of_def mark_contracted_def)
      then have b: "lv' (target oe) = Suc T" by (rule uncontracted)
      from a b at_node node show ?thesis by (simp add: shortcut_levelled_def x nodes)
    qed
  qed
  from part1 part2 have "levels lv' (Suc T) g'" by (simp add: levels_def)
  then show ?thesis by blast
qed

lemma levels_frame:
  assumes "levels lv T g" "out_edges g' = out_edges g" "contracted g' = contracted g"
    "num_nodes g' = num_nodes g"
  shows "levels lv T g'"
  using assms by (simp add: levels_def node_of_def shortcut_levelled_def)

lemma build_loop_levels:
  assumes run: "build_loop g order r = Some g'" and wf: "wf_graph g"
    and lv: "\<exists>lv T. levels lv T g"
  shows "\<exists>lv T. levels lv T g'"
proof -
  have "wf_graph g' \<and> (\<exists>lv T. levels lv T g')"
  proof (rule build_loop_rule[where Q = "\<lambda>x r. wf_graph x \<and> (\<exists>lv T. levels lv T x)", OF run])
    show "wf_graph g \<and> (\<exists>lv T. levels lv T g)" using wf lv by simp
  next
    fix g0 r0 node rk g1 k
    assume Q: "wf_graph g0 \<and> (\<exists>lv T. levels lv T g0)"
      and rk: "vec_put (rank g0) node r0 = Some rk"
      and c: "contract_node (g0\<lparr>rank := rk\<rparr>) node = Some (g1, k)"
    have wf0: "wf_graph (g0\<lparr>rank := rk\<rparr>)" and n: "node_of (g0\<lparr>rank := rk\<rparr>) node"
      using wf_graph_rank_update[OF _ rk] Q by (simp_all add: node_of_def)
    from Q obtain lv T where "levels lv T g0" by blast
    then have "levels lv T (g0\<lparr>rank := rk\<rparr>)"
      by (rule levels_frame) (simp_all add: out_edges_def)
    from contract_node_levels[OF wf0 n this c] contract_node_frame(1)[OF wf0 n c]
    show "wf_graph g1 \<and> (\<exists>lv T. levels lv T g1)" by simp
  qed
  then show ?thesis ..
qed

lemma hierarchy_levels: "hierarchy g \<Longrightarrow> \<exists>lv T. levels lv T g"
proof (induction rule: hierarchy.induct)
  case (init n g)
  then have "out_edges g = {#}" "\<forall>v. node_of g v \<longrightarrow> \<not> contracted g ! nat v"
    by (auto simp: CHGraph_init_def out_edges_def entries_from_replicate node_of_def
        split: if_splits)
  then have "levels (\<lambda>_. 0) 0 g" by (simp add: levels_def)
  then show ?case by blast
next
  case (add_edge g u v w g')
  from add_edge.IH obtain lv T where lv: "levels lv T g" by blast
  from add_edge.hyps(2) have a: "add_ch_edge g u v w False (- 1) = Some g'"
    by (simp add: add_edge_eq_add_ch_edge)
  have "levels lv T g'"
    using lv add_ch_edge_out_edges[OF a] add_ch_edge_fields(1,2)[OF a]
    by (auto simp: levels_def node_of_def shortcut_levelled_def)
  then show ?case by blast
next
  case (set_rank g u r g')
  from set_rank.IH obtain lv T where lv: "levels lv T g" by blast
  have "levels lv T g'"
    by (rule levels_frame[OF lv])
       (use set_rank.hyps(2) in \<open>auto simp: set_rank_def out_edges_def split: if_splits option.splits\<close>)
  then show ?case by blast
next
  case (build_ch g order g')
  from build_ch.IH obtain lv T where lv: "levels lv T g" by blast
  have wf0: "wf_graph (g\<lparr>node_order := order\<rparr>)"
    using constructed_wf[OF hierarchy_constructed[OF build_ch.hyps(1)]]
    by (simp add: wf_graph_def)
  have "levels lv T (g\<lparr>node_order := order\<rparr>)"
    by (rule levels_frame[OF lv]) (simp_all add: out_edges_def)
  then have "\<exists>lv T. levels lv T (g\<lparr>node_order := order\<rparr>)" by blast
  from build_loop_levels[OF _ wf0 this] build_ch.hyps(2) show ?case
    by (simp add: build_ch_def)
qed

lemma first_shortcut_Some:
  assumes "first_shortcut es v = Some e"
  shows "e \<in> set es" "target e = v" "is_shortcut e" "via_node e \<noteq> - 1"
  using assms by (auto simp: first_shortcut_def find_Some_iff)

lemma unpack_levels:
  assumes wf: "wf_graph g" and lv: "levels lv T g"
  shows "node_of g u \<Longrightarrow> \<exists>q. unpack g u v path = Some (path @ q) \<and> q \<noteq> [] \<and> last q = v"
proof (induction "min (lv u) (lv v)" arbitrary: u v path rule: less_induct)
  case less
  note u = less.prems
  have es: "vec_at (adj_out g) u = Some (adj_out g ! nat u)"
    using wf_graph_bounds(1)[OF wf u] by (rule vec_at_Some)
  show ?case
  proof (cases "first_shortcut (adj_out g ! nat u) v")
    case None
    with es have "unpack g u v path = Some (path @ [v])" by (subst unpack.simps) simp
    then show ?thesis by simp
  next
    case (Some e)
    note e = first_shortcut_Some[OF Some]
    have "(u, v, weight e, True, via_node e) \<in># out_edges g"
      unfolding out_edges_mem using e wf_graph_bounds(1)[OF wf u] by blast
    with lv have "shortcut_levelled lv g (u, v, weight e, True, via_node e)"
      by (simp add: levels_def)
    with e(4) have via: "node_of g (via_node e)" "lv (via_node e) < lv u" "lv (via_node e) < lv v"
      by (simp_all add: shortcut_levelled_def)
    have "min (lv u) (lv (via_node e)) < min (lv u) (lv v)" using via(2,3) by simp
    from less.hyps[OF this u] obtain q1 where
      q1: "unpack g u (via_node e) path = Some (path @ q1)" by blast
    have "min (lv (via_node e)) (lv v) < min (lv u) (lv v)" using via(2,3) by simp
    from less.hyps[OF this via(1)] obtain q2 where
      q2: "unpack g (via_node e) v (path @ q1) = Some ((path @ q1) @ q2)" "q2 \<noteq> []" "last q2 = v"
      by blast
    have "unpack g u v path = Some (path @ (q1 @ q2))"
      by (subst unpack.simps) (simp add: es Some q1 q2(1))
    with q2(2,3) show ?thesis by simp
  qed
qed

lemma unpack_hierarchy:
  assumes "hierarchy g" "node_of g u"
  shows "\<exists>q. unpack g u v path = Some (path @ q) \<and> q \<noteq> [] \<and> last q = v"
proof -
  from hierarchy_levels[OF assms(1)] obtain lv T where lv: "levels lv T g" by blast
  note wf = constructed_wf[OF hierarchy_constructed[OF assms(1)]]
  from unpack_levels[OF wf lv assms(2)] show ?thesis .
qed

text \<open>
  Claim C9. On a graph whose shortcuts were all produced by \<open>contract_node\<close> (so the via
  node of every shortcut was contracted before either end of the shortcut), \<open>unpack\<close>
  returns for every node \<open>u\<close> and every \<open>v\<close>: the recursion descends along the order of
  contraction. The result extends the path by a non-empty sequence that ends in \<open>v\<close>.
\<close>

theorem unpack_terminates:
  assumes "hierarchy g" "node_of g u"
  shows "\<exists>q. unpack g u v path = Some (path @ q) \<and> q \<noteq> [] \<and> last q = v"
  using unpack_hierarchy[OF assms] .

lemma hierarchy_path3_built: "hierarchy path3_built"
proof -
  from path3_steps obtain g0 g1 where
    s: "CHGraph_init 3 = Some g0" "add_edge g0 0 1 2000 = Some g1"
       "add_edge g1 1 2 3000 = Some path3"
    by (auto simp: bind_eq_Some_conv)
  have "hierarchy g0" by (rule hierarchy.init[OF s(1)])
  then have "hierarchy g1" by (rule hierarchy.add_edge[OF _ s(2)])
  then have "hierarchy path3" by (rule hierarchy.add_edge[OF _ s(3)])
  then show ?thesis by (rule hierarchy.build_ch[OF _ path3_build])
qed

theorem unpack_terminates_witness:
  "hierarchy path3_built \<and> node_of path3_built 0
   \<and> unpack path3_built 0 2 [0] = Some [0, 1, 2]"
proof -
  have n: "node_of path3_built 0" by (simp add: node_of_def path3_built_def)
  from unpack_terminates[OF hierarchy_path3_built n, of 2 "[0]"] obtain q where
    q: "unpack path3_built 0 2 [0] = Some ([0] @ q)" by blast
  have "unpack path3_built 0 2 [0] = Some [0, 1, 2]" by code_simp
  with q hierarchy_path3_built n show ?thesis by simp
qed

section \<open>The search loop of the query\<close>





































section \<open>What the witness search decides\<close>

text \<open>A walk in the graph: a list of edges, each leaving the node the previous one entered.\<close>

fun walk :: "CHGraph \<Rightarrow> int \<Rightarrow> Edge list \<Rightarrow> int \<Rightarrow> bool" where
  "walk g u [] w \<longleftrightarrow> u = w"
| "walk g u (e # es) w \<longleftrightarrow>
     in_bounds (adj_out g) u \<and> e \<in> set (adj_out g ! nat u) \<and> walk g (target e) es w"

definition walk_weight :: "Edge list \<Rightarrow> real" where
  "walk_weight es = sum_list (map weight es)"


















text \<open>
  The diamond with the two routes \<open>0 \<rightarrow> 1 \<rightarrow> 2\<close> and \<open>0 \<rightarrow> 3 \<rightarrow> 2\<close>, all weights 1000;
  \<open>diamond_built\<close> is the graph after \<open>build_ch([1])\<close>, where contracting node 1 has
  found the route through node 3 as a witness and inserted nothing.
\<close>

definition diamond :: CHGraph where
  "diamond = \<lparr>num_nodes = 4,
     adj_out = [[mk_edge 1 1000 False (- 1), mk_edge 3 1000 False (- 1)],
                [mk_edge 2 1000 False (- 1)], [], [mk_edge 2 1000 False (- 1)]],
     adj_in = [[], [mk_edge 0 1000 False (- 1)],
               [mk_edge 1 1000 False (- 1), mk_edge 3 1000 False (- 1)],
               [mk_edge 0 1000 False (- 1)]],
     contracted = [False, False, False, False],
     rank = [- 1, - 1, - 1, - 1],
     node_order = []\<rparr>"


lemma diamond_steps:
  "Option.bind (Option.bind (Option.bind (Option.bind (CHGraph_init 4)
     (\<lambda>g. add_edge g 0 1 1000)) (\<lambda>g. add_edge g 1 2 1000)) (\<lambda>g. add_edge g 0 3 1000))
     (\<lambda>g. add_edge g 3 2 1000) = Some diamond"
  by (simp add: CHGraph_init_def add_edge_def push_back_at_def in_bounds_def diamond_def
      eval_nat_numeral)







section \<open>Contraction preserves distances between the remaining nodes\<close>



















section \<open>The hierarchy invariant\<close>































section \<open>Shortcuts stand for paths of the original graph\<close>











section \<open>What the search of the query computes\<close>





definition dist_le :: "dist \<Rightarrow> dist \<Rightarrow> bool" where
  "dist_le a b = (case b of Infty \<Rightarrow> True | Fin y \<Rightarrow> (case a of Infty \<Rightarrow> False | Fin x \<Rightarrow> x \<le> y))"














definition meets :: "CHGraph \<Rightarrow> dist list \<Rightarrow> dist list \<Rightarrow> dist \<Rightarrow> bool" where
  "meets g ds other mu \<longleftrightarrow>
     (\<forall>x d1 d2. node_of g x \<and> ds ! nat x = Fin d1 \<and> other ! nat x = Fin d2 \<longrightarrow>
        (\<exists>c. mu = Fin c \<and> c \<le> d1 + d2))"


lemma meets_le: "meets g ds other mu \<Longrightarrow> dist_le mu' mu \<Longrightarrow> meets g ds other mu'"
  unfolding meets_def dist_le_def by (fastforce split: dist.splits)



















section \<open>Optimality of the query\<close>


definition shortest :: "CHGraph \<Rightarrow> int \<Rightarrow> int \<Rightarrow> real \<Rightarrow> bool" where
  "shortest g s t d \<longleftrightarrow>
     (\<exists>es. walk g s es t \<and> walk_weight es = d) \<and> (\<forall>es. walk g s es t \<longrightarrow> d \<le> walk_weight es)"

lemma shortest_unique: "shortest g s t d \<Longrightarrow> shortest g s t d' \<Longrightarrow> d = d'"
  unfolding shortest_def by (metis order_antisym)


lemma position_mem: "v \<in> set xs \<Longrightarrow> \<exists>i < length xs. xs ! i = v"
  by (auto simp: in_set_conv_nth)



























section \<open>The empty result of the query\<close>






end
